theory Spec2Isabelle
  imports Main "HOL-Library.Monad_Syntax"
begin

section \<open>The sparse graph engine (GrafoDisperso) as a shallow embedding\<close>

text \<open>
  The C++ class \<open>GrafoDisperso\<close> keeps a directed graph in Compressed-Sparse-Row form.
  Its fields become a record, its methods become functions that take the object and
  return the result (and, for the two mutating methods, the new object).

  C++ \<open>int\<close> values are modelled as \<open>int\<close>. The results are in \<open>option\<close>:
  \<open>None\<close> stands for an execution that leaves defined behaviour or does not return
  normally: an index outside a vector, signed overflow of \<open>maxNodo + 1\<close> or
  \<open>numNodos + 1\<close>, a \<open>resize\<close> or \<open>reserve\<close> with a negative size (which the
  conversion to \<open>size_t\<close> turns into an allocation failure). \<open>Some\<close> is a normal
  return. The remaining additions of the code (edge counters, row offsets, levels) are
  written without a bound: on a graph built from fewer than \<open>2^31\<close> edges they stay
  below the number of edges or nodes.
\<close>

declare Option.bind_cong [fundef_cong]

record GrafoDisperso =
  row_ptr :: "int list"
  column_indices :: "int list"
  valores :: "int list"
  numNodos :: int
  numAristas :: int
  gradoEntrada :: "int list"

text \<open>The constructor: \<open>numNodos(0), numAristas(0)\<close>, all vectors empty.
  (The field \<open>values\<close> of the class is called \<open>valores\<close> here.)\<close>

definition grafo_nuevo :: GrafoDisperso where
  "grafo_nuevo = \<lparr>row_ptr = [], column_indices = [], valores = [],
     numNodos = 0, numAristas = 0, gradoEntrada = []\<rparr>"

subsection \<open>Vectors and machine integers\<close>

definition INT_MAX :: int where "INT_MAX = 2147483647"
definition INT_MIN :: int where "INT_MIN = - 2147483648"

text \<open>\<open>a + b\<close> on \<open>int\<close>: undefined when the sum leaves the type.\<close>

definition suma_int :: "int \<Rightarrow> int \<Rightarrow> int option" where
  "suma_int a b = (if INT_MIN \<le> a + b \<and> a + b \<le> INT_MAX then Some (a + b) else None)"

text \<open>The implicit conversion of \<open>aristas.size()\<close> (a \<open>size_t\<close>) to \<open>int\<close>:
  reduction modulo \<open>2^32\<close> into the signed range.\<close>

definition size_a_int :: "nat \<Rightarrow> int" where
  "size_a_int n = (int n + 2147483648) mod 4294967296 - 2147483648"

text \<open>\<open>v[i]\<close> read and written; an index outside the vector is undefined.\<close>

definition leer :: "'a list \<Rightarrow> int \<Rightarrow> 'a option" where
  "leer xs i = (if 0 \<le> i \<and> i < int (length xs) then Some (xs ! nat i) else None)"

definition escribir :: "'a list \<Rightarrow> int \<Rightarrow> 'a \<Rightarrow> 'a list option" where
  "escribir xs i v = (if 0 \<le> i \<and> i < int (length xs) then Some (xs[nat i := v]) else None)"

text \<open>\<open>v.resize(n, x)\<close>: the first \<open>n\<close> elements are kept, only the elements added
  beyond the old size are set to \<open>x\<close>.\<close>

definition resize :: "'a list \<Rightarrow> int \<Rightarrow> 'a \<Rightarrow> 'a list option" where
  "resize xs n x =
     (if 0 \<le> n then Some (take (nat n) xs @ replicate (nat n - length xs) x) else None)"

text \<open>The elements \<open>v[a], ..., v[b-1]\<close> that a loop \<open>for (i = a; i < b; i++)\<close>
  (or the same loop downwards) reads; no element is read when \<open>b \<le> a\<close>.\<close>

definition rango :: "'a list \<Rightarrow> int \<Rightarrow> int \<Rightarrow> 'a list option" where
  "rango xs a b =
     (if b \<le> a then Some []
      else if 0 \<le> a \<and> b \<le> int (length xs) then Some (take (nat (b - a)) (drop (nat a) xs))
      else None)"

text \<open>\<open>std::sort(v.begin() + a, v.begin() + b)\<close> on integers: the range must be a valid
  range of the vector; the sorted arrangement of integers is unique.\<close>

definition ordenar_rango :: "int list \<Rightarrow> int \<Rightarrow> int \<Rightarrow> int list option" where
  "ordenar_rango xs a b =
     (if 0 \<le> a \<and> a \<le> b \<and> b \<le> int (length xs)
      then Some (take (nat a) xs @ sort (take (nat (b - a)) (drop (nat a) xs)) @ drop (nat b) xs)
      else None)"

subsection \<open>construirCSR\<close>

text \<open>First loop: \<open>row_ptr[arista.first + 1]++; gradoEntrada[arista.second]++\<close>.\<close>

fun contar_grados :: "(int \<times> int) list \<Rightarrow> int list \<times> int list \<Rightarrow> (int list \<times> int list) option" where
  "contar_grados [] (rp, ge) = Some (rp, ge)"
| "contar_grados ((origen, destino) # aristas) (rp, ge) = do {
     a \<leftarrow> leer rp (origen + 1);
     rp' \<leftarrow> escribir rp (origen + 1) (a + 1);
     b \<leftarrow> leer ge destino;
     ge' \<leftarrow> escribir ge destino (b + 1);
     contar_grados aristas (rp', ge')
   }"

text \<open>Second loop: \<open>for (i = 1; i <= numNodos; i++) row_ptr[i] += row_ptr[i - 1]\<close>.\<close>

function acumular :: "int \<Rightarrow> int \<Rightarrow> int list \<Rightarrow> int list option" where
  "acumular i n rp =
     (if i \<le> n then do {
        a \<leftarrow> leer rp i;
        b \<leftarrow> leer rp (i - 1);
        rp' \<leftarrow> escribir rp i (a + b);
        acumular (i + 1) n rp'
      } else Some rp)"
  by pat_completeness auto
termination
  by (relation "measure (\<lambda>(i, n, rp). nat (n + 1 - i))") auto

declare acumular.simps [simp del]

text \<open>Third loop: \<open>pos = currentPos[origen]++; column_indices[pos] = destino\<close>.\<close>

fun llenar :: "(int \<times> int) list \<Rightarrow> int list \<times> int list \<Rightarrow> (int list \<times> int list) option" where
  "llenar [] (currentPos, ci) = Some (currentPos, ci)"
| "llenar ((origen, destino) # aristas) (currentPos, ci) = do {
     pos \<leftarrow> leer currentPos origen;
     currentPos' \<leftarrow> escribir currentPos origen (pos + 1);
     ci' \<leftarrow> escribir ci pos destino;
     llenar aristas (currentPos', ci')
   }"

text \<open>Fourth loop: every row of \<open>column_indices\<close> is sorted.\<close>

function ordenar_filas :: "int \<Rightarrow> int \<Rightarrow> int list \<Rightarrow> int list \<Rightarrow> int list option" where
  "ordenar_filas i n rp ci =
     (if i < n then do {
        a \<leftarrow> leer rp i;
        b \<leftarrow> leer rp (i + 1);
        ci' \<leftarrow> ordenar_rango ci a b;
        ordenar_filas (i + 1) n rp ci'
      } else Some ci)"
  by pat_completeness auto
termination
  by (relation "measure (\<lambda>(i, n, rp, ci). nat (n - i))") auto

declare ordenar_filas.simps [simp del]

definition construirCSR :: "(int \<times> int) list \<Rightarrow> int \<Rightarrow> GrafoDisperso \<Rightarrow> GrafoDisperso option" where
  "construirCSR aristas maxNodo g = do {
     nn \<leftarrow> suma_int maxNodo 1;
     let na = size_a_int (length aristas);
     nn1 \<leftarrow> suma_int nn 1;
     rp0 \<leftarrow> resize (row_ptr g) nn1 0;
     ge0 \<leftarrow> resize (gradoEntrada g) nn 0;
     (rp1, ge1) \<leftarrow> contar_grados aristas (rp0, ge0);
     rp2 \<leftarrow> acumular 1 nn rp1;
     ci0 \<leftarrow> resize (column_indices g) na 0;
     vs0 \<leftarrow> resize (valores g) na 1;
     (if rp2 = [] then None else Some ());
     (cp, ci1) \<leftarrow> llenar aristas (butlast rp2, ci0);
     ci2 \<leftarrow> ordenar_filas 0 nn rp2 ci1;
     Some \<lparr>row_ptr = rp2, column_indices = ci2, valores = vs0,
       numNodos = nn, numAristas = na, gradoEntrada = ge1\<rparr>
   }"

subsection \<open>cargarDatos\<close>

text \<open>
  \<open>iss >> origen\<close> on the rest of a line, after the C++ standard library: white space
  is skipped, then an optional sign and a non-empty run of decimal digits are read; the
  extraction fails (\<open>None\<close>) when there is no digit or when the number does not fit
  an \<open>int\<close>. On success the value and the unread rest of the line are returned.
\<close>

definition isspace :: "char \<Rightarrow> bool" where
  "isspace c \<longleftrightarrow> c \<in> set [CHR '' '', CHR 0x09, CHR 0x0A, CHR 0x0B, CHR 0x0C, CHR 0x0D]"

definition isdigit :: "char \<Rightarrow> bool" where
  "isdigit c \<longleftrightarrow> c \<in> set ''0123456789''"

definition valor_digito :: "char \<Rightarrow> int" where
  "valor_digito c = int (of_char c) - 48"

definition valor_decimal :: "string \<Rightarrow> int" where
  "valor_decimal ds = foldl (\<lambda>a c. 10 * a + valor_digito c) 0 ds"

definition extraer_int :: "string \<Rightarrow> (int \<times> string) option" where
  "extraer_int s =
     (let s1 = dropWhile isspace s;
          neg = (s1 \<noteq> [] \<and> hd s1 = CHR ''-'');
          s2 = (if s1 \<noteq> [] \<and> (hd s1 = CHR ''-'' \<or> hd s1 = CHR ''+'') then tl s1 else s1);
          ds = takeWhile isdigit s2;
          v = (if neg then - valor_decimal ds else valor_decimal ds)
      in if ds = [] \<or> v < INT_MIN \<or> INT_MAX < v then None
         else Some (v, dropWhile isdigit s2))"

text \<open>The \<open>while (std::getline(file, linea))\<close> loop over the lines of the file, with
  the local variables \<open>aristas\<close> and \<open>maxNodo\<close>.\<close>

fun leer_lineas :: "string list \<Rightarrow> (int \<times> int) list \<times> int \<Rightarrow> (int \<times> int) list \<times> int" where
  "leer_lineas [] (aristas, maxNodo) = (aristas, maxNodo)"
| "leer_lineas (linea # resto) (aristas, maxNodo) =
     (if linea = [] \<or> hd linea = CHR ''#'' then leer_lineas resto (aristas, maxNodo)
      else (case extraer_int linea of
              None \<Rightarrow> leer_lineas resto (aristas, maxNodo)
            | Some (origen, r) \<Rightarrow>
               (case extraer_int r of
                  None \<Rightarrow> leer_lineas resto (aristas, maxNodo)
                | Some (destino, r') \<Rightarrow>
                    leer_lineas resto
                      (aristas @ [(origen, destino)], max maxNodo (max origen destino)))))"

text \<open>The file is given as what \<open>std::ifstream\<close> finds: \<open>None\<close> when it cannot be
  opened, otherwise its lines. The result is the returned flag and the object after the call.\<close>

definition cargarDatos :: "string list option \<Rightarrow> GrafoDisperso \<Rightarrow> (bool \<times> GrafoDisperso) option" where
  "cargarDatos archivo g =
     (case archivo of
        None \<Rightarrow> Some (False, g)
      | Some lineas \<Rightarrow>
          (case leer_lineas lineas ([], 0) of
             (aristas, maxNodo) \<Rightarrow> do {
               g' \<leftarrow> construirCSR aristas maxNodo g;
               Some (True, g')
             }))"

subsection \<open>Queries\<close>

definition obtenerGrado :: "GrafoDisperso \<Rightarrow> int \<Rightarrow> int option" where
  "obtenerGrado g nodo =
     (if nodo < 0 \<or> nodo \<ge> numNodos g then Some (- 1)
      else do {
        b \<leftarrow> leer (row_ptr g) (nodo + 1);
        a \<leftarrow> leer (row_ptr g) nodo;
        Some (b - a)
      })"

definition obtenerGradoEntrada :: "GrafoDisperso \<Rightarrow> int \<Rightarrow> int option" where
  "obtenerGradoEntrada g nodo =
     (if nodo < 0 \<or> nodo \<ge> numNodos g then Some (- 1)
      else leer (gradoEntrada g) nodo)"

text \<open>The row of a node: \<open>column_indices[row_ptr[nodo]], ..., column_indices[row_ptr[nodo + 1] - 1]\<close>,
  as the traversals read it.\<close>

definition fila :: "GrafoDisperso \<Rightarrow> int \<Rightarrow> int list option" where
  "fila g nodo = do {
     inicio \<leftarrow> leer (row_ptr g) nodo;
     fin \<leftarrow> leer (row_ptr g) (nodo + 1);
     rango (column_indices g) inicio fin
   }"

definition getVecinos :: "GrafoDisperso \<Rightarrow> int \<Rightarrow> int list option" where
  "getVecinos g nodo =
     (if nodo < 0 \<or> nodo \<ge> numNodos g then Some []
      else do {
        inicio \<leftarrow> leer (row_ptr g) nodo;
        fin \<leftarrow> leer (row_ptr g) (nodo + 1);
        (if fin - inicio < 0 then None else Some ());
        rango (column_indices g) inicio fin
      })"

definition getNumNodos :: "GrafoDisperso \<Rightarrow> int" where
  "getNumNodos g = numNodos g"

definition getNumAristas :: "GrafoDisperso \<Rightarrow> int" where
  "getNumAristas g = numAristas g"

text \<open>The scan of \<open>getNodoMayorGrado\<close>, with the variables \<open>(nodoMax, maxGrado)\<close>.\<close>

function mayor_grado_bucle :: "GrafoDisperso \<Rightarrow> int \<Rightarrow> int \<times> int \<Rightarrow> (int \<times> int) option" where
  "mayor_grado_bucle g i (nodoMax, maxGrado) =
     (if i < numNodos g then do {
        grado \<leftarrow> obtenerGrado g i;
        (if grado > maxGrado then mayor_grado_bucle g (i + 1) (i, grado)
         else mayor_grado_bucle g (i + 1) (nodoMax, maxGrado))
      } else Some (nodoMax, maxGrado))"
  by pat_completeness auto
termination
  by (relation "measure (\<lambda>(g, i, p). nat (numNodos g - i))") auto

declare mayor_grado_bucle.simps [simp del]

definition getNodoMayorGrado :: "GrafoDisperso \<Rightarrow> (int \<times> int) option" where
  "getNodoMayorGrado g = mayor_grado_bucle g 0 (- 1, 0)"

subsection \<open>BFS\<close>

text \<open>The inner loop of BFS over the row of the dequeued node.\<close>

fun visitar_vecinos :: "int list \<Rightarrow> int \<Rightarrow> bool list \<times> (int \<times> int) list
    \<Rightarrow> (bool list \<times> (int \<times> int) list) option" where
  "visitar_vecinos [] nivel (visitado, cola) = Some (visitado, cola)"
| "visitar_vecinos (vecino # vs) nivel (visitado, cola) = do {
     b \<leftarrow> leer visitado vecino;
     (if \<not> b then do {
        visitado' \<leftarrow> escribir visitado vecino True;
        visitar_vecinos vs nivel (visitado', cola @ [(vecino, nivel + 1)])
      } else visitar_vecinos vs nivel (visitado, cola))
   }"

lemma marcar_medida:
  assumes "leer visitado v = Some False" and "escribir visitado v True = Some visitado'"
  shows "length (filter Not visitado) = Suc (length (filter Not visitado'))"
proof -
  from assms(1) have rng: "0 \<le> v" "nat v < length visitado" "\<not> visitado ! nat v"
    by (auto simp: leer_def split: if_splits)
  from assms(2) have upd: "visitado' = visitado[nat v := True]"
    by (auto simp: escribir_def split: if_splits)
  define A where "A = take (nat v) visitado"
  define B where "B = drop (Suc (nat v)) visitado"
  have h1: "visitado = A @ False # B"
    using rng(2,3) id_take_nth_drop [of "nat v" visitado] by (simp add: A_def B_def)
  have h2: "visitado' = A @ True # B"
    using rng(2) upd by (simp add: upd_conv_take_nth_drop A_def B_def)
  show ?thesis by (simp add: h1 h2)
qed

lemma visitar_vecinos_medida:
  "visitar_vecinos vs nivel (visitado, cola) = Some (visitado', cola') \<Longrightarrow>
   length (filter Not visitado') + length cola' = length (filter Not visitado) + length cola"
proof (induction vs arbitrary: visitado cola)
  case Nil
  then show ?case by simp
next
  case (Cons v vs)
  from Cons.prems obtain b where b: "leer visitado v = Some b"
    by (auto simp: bind_eq_Some_conv)
  show ?case
  proof (cases b)
    case True
    with Cons b show ?thesis by simp
  next
    case False
    with Cons.prems b obtain vis1 where
      w: "escribir visitado v True = Some vis1" and
      r: "visitar_vecinos vs nivel (vis1, cola @ [(v, nivel + 1)]) = Some (visitado', cola')"
      by (auto simp: bind_eq_Some_conv)
    from marcar_medida [of visitado v vis1] b False w
    have "length (filter Not visitado) = Suc (length (filter Not vis1))" by simp
    with Cons.IH [OF r] show ?thesis by simp
  qed
qed

text \<open>The \<open>while (!cola.empty())\<close> loop of BFS; the queue is a list with its front first.\<close>

function bfs_bucle :: "GrafoDisperso \<Rightarrow> int \<Rightarrow> bool list \<times> (int \<times> int) list \<times> (int \<times> int) list
    \<Rightarrow> (int \<times> int) list option" where
  "bfs_bucle g prof (visitado, [], resultado) = Some resultado"
| "bfs_bucle g prof (visitado, (nodoActual, nivel) # cola, resultado) =
     (if nivel \<ge> prof then bfs_bucle g prof (visitado, cola, resultado @ [(nodoActual, nivel)])
      else do {
        vs \<leftarrow> fila g nodoActual;
        (visitado', cola') \<leftarrow> visitar_vecinos vs nivel (visitado, cola);
        bfs_bucle g prof (visitado', cola', resultado @ [(nodoActual, nivel)])
      })"
  by pat_completeness auto
termination
proof (relation "measure (\<lambda>(g, prof, visitado, cola, resultado).
    length (filter Not visitado) + length cola)", goal_cases)
  case 1
  then show ?case by simp
next
  case (2 g prof visitado nodoActual nivel cola resultado)
  then show ?case by simp
next
  case (3 g prof visitado nodoActual nivel cola resultado vs p visitado' cola')
  then show ?case using visitar_vecinos_medida [of vs nivel visitado cola visitado' cola']
    by simp
qed

definition BFS :: "GrafoDisperso \<Rightarrow> int \<Rightarrow> int \<Rightarrow> (int \<times> int) list option" where
  "BFS g nodoInicio profundidadMaxima =
     (if nodoInicio < 0 \<or> nodoInicio \<ge> numNodos g then Some []
      else do {
        visitado \<leftarrow> escribir (replicate (nat (numNodos g)) False) nodoInicio True;
        bfs_bucle g profundidadMaxima (visitado, [(nodoInicio, 0)], [])
      })"

subsection \<open>DFS\<close>

text \<open>The inner loop of DFS runs over the row from its last element to its first and
  pushes the neighbours not yet visited; the stack is a list with its top first.\<close>

fun apilar_vecinos :: "int list \<Rightarrow> bool list \<Rightarrow> int list \<Rightarrow> int list option" where
  "apilar_vecinos [] visitado pila = Some pila"
| "apilar_vecinos (vecino # vs) visitado pila = do {
     b \<leftarrow> leer visitado vecino;
     apilar_vecinos vs visitado (if \<not> b then vecino # pila else pila)
   }"

function dfs_bucle :: "GrafoDisperso \<Rightarrow> bool list \<times> int list \<times> int list \<Rightarrow> int list option" where
  "dfs_bucle g (visitado, [], resultado) = Some resultado"
| "dfs_bucle g (visitado, nodoActual # pila, resultado) = do {
     b \<leftarrow> leer visitado nodoActual;
     (if b then dfs_bucle g (visitado, pila, resultado)
      else do {
        visitado' \<leftarrow> escribir visitado nodoActual True;
        vs \<leftarrow> fila g nodoActual;
        pila' \<leftarrow> apilar_vecinos (rev vs) visitado' pila;
        dfs_bucle g (visitado', pila', resultado @ [nodoActual])
      })
   }"
  by pat_completeness auto
termination
proof (relation "measures [\<lambda>(g, visitado, pila, resultado). length (filter Not visitado),
    \<lambda>(g, visitado, pila, resultado). length pila]", goal_cases)
  case 1
  then show ?case by simp
next
  case (2 g visitado nodoActual pila resultado b)
  then show ?case by simp
next
  case (3 g visitado nodoActual pila resultado b visitado' vs pila')
  then show ?case using marcar_medida [of visitado nodoActual visitado'] by simp
qed

definition DFS :: "GrafoDisperso \<Rightarrow> int \<Rightarrow> int list option" where
  "DFS g nodoInicio =
     (if nodoInicio < 0 \<or> nodoInicio \<ge> numNodos g then Some []
      else dfs_bucle g (replicate (nat (numNodos g)) False, [nodoInicio], []))"

subsection \<open>getAristasSubgrafo\<close>

text \<open>The inner loop: every edge of the row is appended to \<open>aristas\<close>; a neighbour is
  inserted into \<open>nodosEnSubgrafo\<close> and pushed on the queue when it is not yet in the set.\<close>

fun agregar_vecinos :: "int \<Rightarrow> int list \<Rightarrow> int
    \<Rightarrow> int set \<times> (int \<times> int) list \<times> (int \<times> int) list
    \<Rightarrow> int set \<times> (int \<times> int) list \<times> (int \<times> int) list" where
  "agregar_vecinos nodoActual [] nivel (nodosEnSubgrafo, cola, aristas) =
     (nodosEnSubgrafo, cola, aristas)"
| "agregar_vecinos nodoActual (vecino # vs) nivel (nodosEnSubgrafo, cola, aristas) =
     (if vecino \<notin> nodosEnSubgrafo
      then agregar_vecinos nodoActual vs nivel
             (insert vecino nodosEnSubgrafo, cola @ [(vecino, nivel + 1)],
              aristas @ [(nodoActual, vecino)])
      else agregar_vecinos nodoActual vs nivel
             (nodosEnSubgrafo, cola, aristas @ [(nodoActual, vecino)]))"

lemma set_rango: "rango xs a b = Some ys \<Longrightarrow> set ys \<subseteq> set xs"
  by (auto simp: rango_def split: if_splits dest: in_set_takeD in_set_dropD)

lemma set_fila: "fila g u = Some vs \<Longrightarrow> set vs \<subseteq> set (column_indices g)"
  by (auto simp: fila_def bind_eq_Some_conv dest: set_rango)

lemma agregar_vecinos_medida:
  assumes "finite C" and "set vs \<subseteq> C"
    and "agregar_vecinos u vs nivel (S, cola, ar) = (S', cola', ar')"
  shows "card (C - S') + length cola' = card (C - S) + length cola"
  using assms(2,3)
proof (induction vs arbitrary: S cola ar)
  case Nil
  then show ?case by simp
next
  case (Cons v vs)
  show ?case
  proof (cases "v \<in> S")
    case True
    with Cons show ?thesis by simp
  next
    case False
    with Cons.prems have r: "agregar_vecinos u vs nivel
        (insert v S, cola @ [(v, nivel + 1)], ar @ [(u, v)]) = (S', cola', ar')"
      by simp
    from Cons.prems(1) have vs: "set vs \<subseteq> C" and v: "v \<in> C" by auto
    from v False have "v \<in> C - S" by simp
    then have "card (C - S) = Suc (card (C - insert v S))"
      using assms(1) by (metis Diff_insert card_Suc_Diff1 finite_Diff)
    with Cons.IH [OF vs r] show ?thesis by simp
  qed
qed

function subgrafo_bucle :: "GrafoDisperso \<Rightarrow> int
    \<Rightarrow> int set \<times> (int \<times> int) list \<times> (int \<times> int) list \<Rightarrow> (int \<times> int) list option" where
  "subgrafo_bucle g prof (nodosEnSubgrafo, [], aristas) = Some aristas"
| "subgrafo_bucle g prof (nodosEnSubgrafo, (nodoActual, nivel) # cola, aristas) =
     (if nivel \<ge> prof then subgrafo_bucle g prof (nodosEnSubgrafo, cola, aristas)
      else do {
        vs \<leftarrow> fila g nodoActual;
        subgrafo_bucle g prof (agregar_vecinos nodoActual vs nivel (nodosEnSubgrafo, cola, aristas))
      })"
  by pat_completeness auto
termination
proof (relation "measure (\<lambda>(g, prof, nodosEnSubgrafo, cola, aristas).
    card (set (column_indices g) - nodosEnSubgrafo) + length cola)", goal_cases)
  case 1
  then show ?case by simp
next
  case (2 g prof nodosEnSubgrafo nodoActual nivel cola aristas)
  then show ?case by simp
next
  case (3 g prof nodosEnSubgrafo nodoActual nivel cola aristas vs)
  obtain S' cola' ar' where
    r: "agregar_vecinos nodoActual vs nivel (nodosEnSubgrafo, cola, aristas) = (S', cola', ar')"
    by (cases "agregar_vecinos nodoActual vs nivel (nodosEnSubgrafo, cola, aristas)") auto
  from agregar_vecinos_medida [OF _ set_fila [OF 3(2)] r]
  show ?case by (simp add: r)
qed

definition getAristasSubgrafo :: "GrafoDisperso \<Rightarrow> int \<Rightarrow> int \<Rightarrow> (int \<times> int) list option" where
  "getAristasSubgrafo g nodoInicio profundidadMaxima =
     (if nodoInicio < 0 \<or> nodoInicio \<ge> numNodos g then Some []
      else subgrafo_bucle g profundidadMaxima ({nodoInicio}, [(nodoInicio, 0)], []))"

section \<open>A loaded example\<close>

text \<open>The edge list \<open>0 1, 0 2, 1 2, 2 0\<close> and the graph that loading it into a new
  object produces.\<close>

definition grafo_ejemplo :: GrafoDisperso where
  "grafo_ejemplo = \<lparr>row_ptr = [0, 2, 3, 4], column_indices = [1, 2, 2, 0],
     valores = [1, 1, 1, 1], numNodos = 3, numAristas = 4, gradoEntrada = [1, 1, 2]\<rparr>"

lemma cargar_ejemplo:
  "cargarDatos (Some [''0 1'', ''0 2'', ''1 2'', ''2 0'']) grafo_nuevo = Some (True, grafo_ejemplo)"
  by code_simp

section \<open>Queries on a node id outside the graph\<close>

text \<open>
  Claim C4. For every graph object and every node id outside \<open>[0, numNodos)\<close>
  (negative, or \<open>numNodos\<close> and above), \<open>obtenerGrado\<close> and \<open>obtenerGradoEntrada\<close>
  return the sentinel \<open>-1\<close>, and \<open>getVecinos\<close>, \<open>BFS\<close>, \<open>DFS\<close> and
  \<open>getAristasSubgrafo\<close> return an empty sequence. Each of them returns normally
  (\<open>Some\<close>): the guard is passed before any vector is read.
\<close>

theorem consultas_nodo_invalido:
  "nodo < 0 \<or> nodo \<ge> numNodos g \<Longrightarrow>
     obtenerGrado g nodo = Some (- 1) \<and>
     obtenerGradoEntrada g nodo = Some (- 1) \<and>
     getVecinos g nodo = Some [] \<and>
     BFS g nodo prof = Some [] \<and>
     DFS g nodo = Some [] \<and>
     getAristasSubgrafo g nodo prof = Some []"
  by (simp add: obtenerGrado_def obtenerGradoEntrada_def getVecinos_def BFS_def DFS_def
      getAristasSubgrafo_def)

theorem consultas_nodo_invalido_witness:
  "((3::int) < 0 \<or> 3 \<ge> numNodos grafo_ejemplo) \<and>
     obtenerGrado grafo_ejemplo 3 = Some (- 1) \<and>
     obtenerGradoEntrada grafo_ejemplo 3 = Some (- 1) \<and>
     getVecinos grafo_ejemplo 3 = Some [] \<and>
     BFS grafo_ejemplo 3 2 = Some [] \<and>
     DFS grafo_ejemplo 3 = Some [] \<and>
     getAristasSubgrafo grafo_ejemplo 3 2 = Some []"
proof -
  have h: "(3::int) < 0 \<or> 3 \<ge> numNodos grafo_ejemplo"
    by (simp add: grafo_ejemplo_def)
  from consultas_nodo_invalido [OF h, of 2] h show ?thesis by simp
qed

section \<open>Loading from a file that cannot be opened\<close>

text \<open>
  Claim C9. For every state of the object, \<open>cargarDatos\<close> on a file that cannot be
  opened returns \<open>false\<close> and leaves the object exactly as it was: all CSR vectors,
  \<open>numNodos\<close> and \<open>numAristas\<close>, and with them the result of every later query.
\<close>

theorem cargar_archivo_inaccesible: "cargarDatos None g = Some (False, g)"
  by (simp add: cargarDatos_def)

section \<open>Well-formed CSR objects\<close>

text \<open>
  What the queries need of the object: \<open>row_ptr\<close> has \<open>numNodos + 1\<close> entries, is
  non-decreasing, starts at a valid offset and ends inside \<open>column_indices\<close>, and every
  stored destination is a node id.
\<close>

definition csr_ok :: "GrafoDisperso \<Rightarrow> bool" where
  "csr_ok g \<longleftrightarrow>
     0 \<le> numNodos g \<and>
     length (row_ptr g) = nat (numNodos g) + 1 \<and>
     sorted (row_ptr g) \<and>
     0 \<le> hd (row_ptr g) \<and>
     last (row_ptr g) \<le> int (length (column_indices g)) \<and>
     list_all (\<lambda>v. 0 \<le> v \<and> v < numNodos g) (column_indices g)"

text \<open>The out-degree that the offsets of a node give.\<close>

definition grado_de :: "GrafoDisperso \<Rightarrow> int \<Rightarrow> int" where
  "grado_de g j = row_ptr g ! nat (j + 1) - row_ptr g ! nat j"

lemma obtenerGrado_valido:
  assumes "length (row_ptr g) = nat (numNodos g) + 1" "0 \<le> j" "j < numNodos g"
  shows "obtenerGrado g j = Some (grado_de g j)"
  using assms by (simp add: obtenerGrado_def leer_def grado_de_def)

lemma grado_de_no_negativo:
  assumes "csr_ok g" "0 \<le> j" "j < numNodos g"
  shows "0 \<le> grado_de g j"
proof -
  from assms have "nat j \<le> nat (j + 1)" "nat (j + 1) < length (row_ptr g)"
    by (auto simp: csr_ok_def)
  with assms(1) have "row_ptr g ! nat j \<le> row_ptr g ! nat (j + 1)"
    by (auto simp: csr_ok_def intro: sorted_nth_mono)
  then show ?thesis by (simp add: grado_de_def)
qed

section \<open>The node of highest out-degree\<close>

text \<open>The invariant of the scan before node \<open>i\<close> is looked at.\<close>

definition mayor_inv :: "GrafoDisperso \<Rightarrow> int \<Rightarrow> int \<times> int \<Rightarrow> bool" where
  "mayor_inv g i p \<longleftrightarrow>
     (case p of (nodoMax, maxGrado) \<Rightarrow>
        (\<forall>j. 0 \<le> j \<and> j < i \<longrightarrow> grado_de g j \<le> maxGrado) \<and>
        (if nodoMax = - 1 then maxGrado = 0
         else 0 \<le> nodoMax \<and> nodoMax < i \<and> 0 < maxGrado \<and> grado_de g nodoMax = maxGrado \<and>
              (\<forall>j. 0 \<le> j \<and> j < nodoMax \<longrightarrow> grado_de g j < maxGrado)))"

lemma mayor_inv_paso_mayor:
  assumes "mayor_inv g i (nodoMax, maxGrado)" "0 \<le> i" "grado_de g i > maxGrado"
  shows "mayor_inv g (i + 1) (i, grado_de g i)"
proof -
  from assms(1) have a: "\<forall>j. 0 \<le> j \<and> j < i \<longrightarrow> grado_de g j \<le> maxGrado" and b: "0 \<le> maxGrado"
    by (auto simp: mayor_inv_def split: if_splits)
  have "\<forall>j. 0 \<le> j \<and> j < i + 1 \<longrightarrow> grado_de g j \<le> grado_de g i"
  proof (intro allI impI)
    fix j assume "0 \<le> j \<and> j < i + 1"
    then have "j = i \<or> (0 \<le> j \<and> j < i)" by auto
    with a assms(3) show "grado_de g j \<le> grado_de g i" by force
  qed
  moreover have "\<forall>j. 0 \<le> j \<and> j < i \<longrightarrow> grado_de g j < grado_de g i"
    using a assms(3) by force
  ultimately show ?thesis using assms(2,3) b by (simp add: mayor_inv_def)
qed

lemma mayor_inv_paso_igual:
  assumes "mayor_inv g i (nodoMax, maxGrado)" "0 \<le> i" "\<not> grado_de g i > maxGrado"
  shows "mayor_inv g (i + 1) (nodoMax, maxGrado)"
proof -
  from assms(1) have a: "\<forall>j. 0 \<le> j \<and> j < i \<longrightarrow> grado_de g j \<le> maxGrado"
    by (auto simp: mayor_inv_def split: if_splits)
  have "\<forall>j. 0 \<le> j \<and> j < i + 1 \<longrightarrow> grado_de g j \<le> maxGrado"
  proof (intro allI impI)
    fix j assume "0 \<le> j \<and> j < i + 1"
    then have "j = i \<or> (0 \<le> j \<and> j < i)" by auto
    with a assms(3) show "grado_de g j \<le> maxGrado" by force
  qed
  then show ?thesis using assms(1) by (auto simp: mayor_inv_def split: if_splits)
qed

lemma mayor_grado_bucle_inv:
  "length (row_ptr g) = nat (numNodos g) + 1 \<Longrightarrow> 0 \<le> i \<Longrightarrow> i \<le> numNodos g \<Longrightarrow> mayor_inv g i p \<Longrightarrow>
    \<exists>r. mayor_grado_bucle g i p = Some r \<and> mayor_inv g (numNodos g) r"
proof (induction g i p rule: mayor_grado_bucle.induct)
  case (1 g i nodoMax maxGrado)
  show ?case
  proof (cases "i < numNodos g")
    case False
    with 1 show ?thesis by (subst mayor_grado_bucle.simps) simp
  next
    case True
    have og: "obtenerGrado g i = Some (grado_de g i)"
      using obtenerGrado_valido [of g i] 1 True by simp
    show ?thesis
    proof (cases "grado_de g i > maxGrado")
      case mayor: True
      from mayor_inv_paso_mayor [OF "1.prems"(4) "1.prems"(2) mayor]
      have "\<exists>r. mayor_grado_bucle g (i + 1) (i, grado_de g i) = Some r \<and> mayor_inv g (numNodos g) r"
        using "1.IH"(1) [OF True og mayor] "1.prems"(1,2) True by simp
      moreover have "mayor_grado_bucle g i (nodoMax, maxGrado) = mayor_grado_bucle g (i + 1) (i, grado_de g i)"
        using True og mayor by (subst mayor_grado_bucle.simps) simp
      ultimately show ?thesis by simp
    next
      case menor: False
      from mayor_inv_paso_igual [OF "1.prems"(4) "1.prems"(2) menor]
      have "\<exists>r. mayor_grado_bucle g (i + 1) (nodoMax, maxGrado) = Some r \<and> mayor_inv g (numNodos g) r"
        using "1.IH"(2) [OF True og menor] "1.prems"(1,2) True by simp
      moreover have "mayor_grado_bucle g i (nodoMax, maxGrado) = mayor_grado_bucle g (i + 1) (nodoMax, maxGrado)"
        using True og menor by (subst mayor_grado_bucle.simps) simp
      ultimately show ?thesis by simp
    qed
  qed
qed

text \<open>
  Claim C8. On a well-formed graph \<open>getNodoMayorGrado\<close> returns \<open>(-1, 0)\<close> when the
  graph has no node or every node has out-degree 0; otherwise it returns a node together
  with its out-degree such that no node has a greater out-degree and every node with a
  lower id has a strictly smaller one (ties go to the lowest id).
\<close>

theorem nodo_mayor_grado:
  assumes "csr_ok g"
  shows "\<exists>nodoMax maxGrado. getNodoMayorGrado g = Some (nodoMax, maxGrado) \<and>
    (if \<forall>j. 0 \<le> j \<and> j < numNodos g \<longrightarrow> obtenerGrado g j = Some 0
     then nodoMax = - 1 \<and> maxGrado = 0
     else 0 \<le> nodoMax \<and> nodoMax < numNodos g \<and>
          obtenerGrado g nodoMax = Some maxGrado \<and>
          (\<forall>j. 0 \<le> j \<and> j < numNodos g \<longrightarrow> (\<exists>d. obtenerGrado g j = Some d \<and> d \<le> maxGrado)) \<and>
          (\<forall>j. 0 \<le> j \<and> j < nodoMax \<longrightarrow> (\<exists>d. obtenerGrado g j = Some d \<and> d < maxGrado)))"
proof -
  from assms have len: "length (row_ptr g) = nat (numNodos g) + 1" and n0: "0 \<le> numNodos g"
    by (auto simp: csr_ok_def)
  have "mayor_inv g 0 (- 1, 0)" by (simp add: mayor_inv_def)
  from mayor_grado_bucle_inv [OF len _ n0 this]
  obtain nodoMax maxGrado where r: "getNodoMayorGrado g = Some (nodoMax, maxGrado)"
    and inv: "mayor_inv g (numNodos g) (nodoMax, maxGrado)"
    by (auto simp: getNodoMayorGrado_def)
  note og = obtenerGrado_valido [OF len]
  note nn = grado_de_no_negativo [OF assms]
  show ?thesis
  proof (cases "\<forall>j. 0 \<le> j \<and> j < numNodos g \<longrightarrow> obtenerGrado g j = Some 0")
    case True
    then have z: "\<And>j. 0 \<le> j \<Longrightarrow> j < numNodos g \<Longrightarrow> grado_de g j = 0"
      using og by force
    have "nodoMax = - 1 \<and> maxGrado = 0"
    proof (rule ccontr)
      assume "\<not> ?thesis"
      with inv have "0 \<le> nodoMax \<and> nodoMax < numNodos g \<and> 0 < maxGrado \<and> grado_de g nodoMax = maxGrado"
        by (auto simp: mayor_inv_def split: if_splits)
      with z show False by force
    qed
    with r True show ?thesis by simp
  next
    case False
    then obtain j where j: "0 \<le> j" "j < numNodos g" "grado_de g j \<noteq> 0"
      using og by force
    with nn [of j] have "0 < grado_de g j" by simp
    moreover from inv j have "grado_de g j \<le> maxGrado" by (auto simp: mayor_inv_def)
    ultimately have "nodoMax \<noteq> - 1" using inv by (auto simp: mayor_inv_def)
    with inv have p: "0 \<le> nodoMax" "nodoMax < numNodos g" "grado_de g nodoMax = maxGrado"
      "\<forall>j. 0 \<le> j \<and> j < numNodos g \<longrightarrow> grado_de g j \<le> maxGrado"
      "\<forall>j. 0 \<le> j \<and> j < nodoMax \<longrightarrow> grado_de g j < maxGrado"
      by (auto simp: mayor_inv_def)
    have "obtenerGrado g nodoMax = Some maxGrado" using og p by simp
    moreover have "\<forall>j. 0 \<le> j \<and> j < numNodos g \<longrightarrow> (\<exists>d. obtenerGrado g j = Some d \<and> d \<le> maxGrado)"
      using og p(4) by simp
    moreover have "\<forall>j. 0 \<le> j \<and> j < nodoMax \<longrightarrow> (\<exists>d. obtenerGrado g j = Some d \<and> d < maxGrado)"
      using og p(2,5) by simp
    ultimately show ?thesis using r False p(1,2) by simp
  qed
qed

theorem nodo_mayor_grado_witness:
  "csr_ok grafo_ejemplo \<and> getNodoMayorGrado grafo_ejemplo = Some (0, 2)"
proof -
  have h: "csr_ok grafo_ejemplo" by (simp add: csr_ok_def grafo_ejemplo_def)
  have "getNodoMayorGrado grafo_ejemplo = Some (0, 2)" by code_simp
  with nodo_mayor_grado [OF h] h show ?thesis by simp
qed

section \<open>Loading twice into the same object\<close>

text \<open>The object after loading the file \<open>2 0\<close> into a new object, the object after
  then loading the file \<open>0 1\<close> into it, and the object after loading the file \<open>0 1\<close>
  into a new object.\<close>

definition grafo_primera :: GrafoDisperso where
  "grafo_primera = \<lparr>row_ptr = [0, 0, 0, 1], column_indices = [0], valores = [1],
     numNodos = 3, numAristas = 1, gradoEntrada = [1, 0, 0]\<rparr>"

definition grafo_recargado :: GrafoDisperso where
  "grafo_recargado = \<lparr>row_ptr = [0, 1, 1], column_indices = [1], valores = [1],
     numNodos = 2, numAristas = 1, gradoEntrada = [1, 1]\<rparr>"

definition grafo_segunda_sola :: GrafoDisperso where
  "grafo_segunda_sola = \<lparr>row_ptr = [0, 1, 1], column_indices = [1], valores = [1],
     numNodos = 2, numAristas = 1, gradoEntrada = [0, 1]\<rparr>"

text \<open>
  Claim C2 says that after a second successful load every query answers as the second
  dataset alone determines. \<open>construirCSR\<close> only resizes \<open>row_ptr\<close> and
  \<open>gradoEntrada\<close>, so the counters of the first load stay in the entries that survive
  the resize. Loading the file \<open>2 0\<close> and then the file \<open>0 1\<close> into one object
  succeeds twice, and the in-degree of node 0 is then 1; the file \<open>0 1\<close> loaded into a
  new object gives in-degree 0 for node 0.
\<close>

theorem segunda_carga_arrastra_grados:
  "cargarDatos (Some [''2 0'']) grafo_nuevo = Some (True, grafo_primera) \<and>
   cargarDatos (Some [''0 1'']) grafo_primera = Some (True, grafo_recargado) \<and>
   obtenerGradoEntrada grafo_recargado 0 = Some 1 \<and>
   cargarDatos (Some [''0 1'']) grafo_nuevo = Some (True, grafo_segunda_sola) \<and>
   obtenerGradoEntrada grafo_segunda_sola 0 = Some 0"
  by code_simp

section \<open>Rows, walks and distances\<close>

text \<open>A node id of the graph.\<close>

definition nodo_valido :: "GrafoDisperso \<Rightarrow> int \<Rightarrow> bool" where
  "nodo_valido g v \<longleftrightarrow> 0 \<le> v \<and> v < numNodos g"

text \<open>On a well-formed graph the row of every node can be read, \<open>getVecinos\<close> returns
  it, and it holds node ids only.\<close>

lemma fila_ok:
  assumes "csr_ok g" "nodo_valido g u"
  shows "\<exists>vs. fila g u = Some vs \<and> getVecinos g u = Some vs \<and> (\<forall>w\<in>set vs. nodo_valido g w)"
proof -
  let ?rp = "row_ptr g"
  from assms have u: "0 \<le> u" "u < numNodos g" by (auto simp: nodo_valido_def)
  from assms(1) have len: "length ?rp = nat (numNodos g) + 1" and srt: "sorted ?rp"
    and h0: "0 \<le> hd ?rp" and lst: "last ?rp \<le> int (length (column_indices g))"
    and ci: "\<forall>w\<in>set (column_indices g). nodo_valido g w"
    by (auto simp: csr_ok_def list_all_iff nodo_valido_def)
  define a where "a = ?rp ! nat u"
  define b where "b = ?rp ! nat (u + 1)"
  have la: "leer ?rp u = Some a" and lb: "leer ?rp (u + 1) = Some b"
    using u len by (auto simp: leer_def a_def b_def)
  have ne: "?rp \<noteq> []" using len by auto
  have "?rp ! 0 \<le> a" unfolding a_def using srt len u by (intro sorted_nth_mono) auto
  with h0 ne have a0: "0 \<le> a" by (simp add: hd_conv_nth)
  have ab: "a \<le> b" unfolding a_def b_def using srt len u by (intro sorted_nth_mono) auto
  have "b \<le> ?rp ! (length ?rp - 1)" unfolding b_def using srt len u
    by (intro sorted_nth_mono) auto
  with lst ne have bl: "b \<le> int (length (column_indices g))" by (simp add: last_conv_nth)
  have "\<exists>vs. rango (column_indices g) a b = Some vs"
    using a0 ab bl by (simp add: rango_def)
  then obtain vs where r: "rango (column_indices g) a b = Some vs" ..
  from set_rango [OF r] ci have "\<forall>w\<in>set vs. nodo_valido g w" by auto
  moreover have "fila g u = Some vs" using la lb r by (simp add: fila_def)
  moreover have "getVecinos g u = Some vs" using la lb r u ab by (simp add: getVecinos_def)
  ultimately show ?thesis by blast
qed

text \<open>
  The graph that the object represents: the edges out of \<open>u\<close> are what \<open>getVecinos\<close>
  returns for \<open>u\<close>. \<open>caminos g s k\<close> lists the end points of the walks of \<open>k\<close> edges
  from \<open>s\<close>; \<open>distancia g s v d\<close> says that the shortest walk from \<open>s\<close> to \<open>v\<close>
  has \<open>d\<close> edges.
\<close>

definition vecinos_de :: "GrafoDisperso \<Rightarrow> int \<Rightarrow> int list" where
  "vecinos_de g u = (case getVecinos g u of Some vs \<Rightarrow> vs | None \<Rightarrow> [])"

definition arista :: "GrafoDisperso \<Rightarrow> int \<Rightarrow> int \<Rightarrow> bool" where
  "arista g u v \<longleftrightarrow> v \<in> set (vecinos_de g u)"

fun caminos :: "GrafoDisperso \<Rightarrow> int \<Rightarrow> nat \<Rightarrow> int list" where
  "caminos g s 0 = [s]"
| "caminos g s (Suc k) = concat (map (vecinos_de g) (caminos g s k))"

definition alcanza_en :: "GrafoDisperso \<Rightarrow> int \<Rightarrow> nat \<Rightarrow> int \<Rightarrow> bool" where
  "alcanza_en g s k v \<longleftrightarrow> v \<in> set (caminos g s k)"

definition distancia :: "GrafoDisperso \<Rightarrow> int \<Rightarrow> int \<Rightarrow> nat \<Rightarrow> bool" where
  "distancia g s v d \<longleftrightarrow> alcanza_en g s d v \<and> (\<forall>k<d. \<not> alcanza_en g s k v)"

lemma alcanza_en_0 [simp]: "alcanza_en g s 0 v \<longleftrightarrow> v = s"
  by (simp add: alcanza_en_def)

lemma alcanza_en_Suc: "alcanza_en g s (Suc k) v \<longleftrightarrow> (\<exists>u. alcanza_en g s k u \<and> arista g u v)"
  by (auto simp: alcanza_en_def arista_def)

lemma distancia_unica: "distancia g s v d \<Longrightarrow> distancia g s v d' \<Longrightarrow> d = d'"
  unfolding distancia_def by (meson linorder_neqE_nat)

lemma alcanza_distancia: "alcanza_en g s k v \<Longrightarrow> \<exists>d\<le>k. distancia g s v d"
proof -
  assume a: "alcanza_en g s k v"
  define d where "d = (LEAST j. alcanza_en g s j v)"
  have "alcanza_en g s d v" unfolding d_def using a by (rule LeastI)
  moreover have "d \<le> k" unfolding d_def using a by (rule Least_le)
  moreover have "\<forall>j<d. \<not> alcanza_en g s j v" unfolding d_def using not_less_Least by blast
  ultimately show ?thesis unfolding distancia_def by blast
qed

lemma distancia_0 [simp]: "distancia g s v 0 \<longleftrightarrow> v = s"
  by (simp add: distancia_def)

lemma distancia_predecesor:
  assumes "distancia g s v (Suc d)"
  shows "\<exists>u. distancia g s u d \<and> arista g u v"
proof -
  from assms obtain u where u: "alcanza_en g s d u" "arista g u v"
    by (auto simp: distancia_def alcanza_en_Suc)
  from alcanza_distancia [OF u(1)] obtain d' where d': "d' \<le> d" "distancia g s u d'" by blast
  have "d' = d"
  proof (rule ccontr)
    assume "d' \<noteq> d"
    with d' have "Suc d' < Suc d" by simp
    moreover have "alcanza_en g s (Suc d') v" using d'(2) u(2)
      by (auto simp: alcanza_en_Suc distancia_def)
    ultimately show False using assms by (auto simp: distancia_def)
  qed
  with d' u show ?thesis by blast
qed

lemma distancia_sucesor:
  assumes "distancia g s u d" "arista g u w"
  shows "\<exists>d'\<le>Suc d. distancia g s w d'"
proof -
  from assms have "alcanza_en g s (Suc d) w" by (auto simp: alcanza_en_Suc distancia_def)
  then show ?thesis by (rule alcanza_distancia)
qed


section \<open>BFS\<close>

text \<open>
  The invariant of the \<open>while\<close> loop, over the marks \<open>vis\<close>, the queue \<open>q\<close> and the
  output \<open>out\<close>: the marked nodes are those of \<open>out @ q\<close>; in \<open>out @ q\<close> no node
  occurs twice, the levels do not decrease and each level is the distance of its node;
  the queue spans at most two levels; every node of the output below the depth bound has
  all its neighbours in \<open>out @ q\<close>; and every node at most as far as the front
  of the queue is in \<open>out @ q\<close>. \<open>exp_inv\<close> is the invariant of the inner loop while
  the row of \<open>u\<close> is being visited.
\<close>

definition vistos :: "(int \<times> int) list \<Rightarrow> (int \<times> int) list \<Rightarrow> int set" where
  "vistos out q = fst ` set (out @ q)"

definition marcas_ok :: "GrafoDisperso \<Rightarrow> bool list \<Rightarrow> int set \<Rightarrow> bool" where
  "marcas_ok g vis V \<longleftrightarrow>
     length vis = nat (numNodos g) \<and> (\<forall>v. nodo_valido g v \<longrightarrow> (vis ! nat v \<longleftrightarrow> v \<in> V))"

definition niveles_ok :: "GrafoDisperso \<Rightarrow> int \<Rightarrow> int \<Rightarrow> (int \<times> int) list \<Rightarrow> bool" where
  "niveles_ok g s D xs \<longleftrightarrow>
     distinct (map fst xs) \<and> sorted (map snd xs) \<and>
     (\<forall>(v, l)\<in>set xs. nodo_valido g v \<and> 0 \<le> l \<and> l \<le> D \<and> distancia g s v (nat l))"

definition expandidos_ok :: "GrafoDisperso \<Rightarrow> int \<Rightarrow> (int \<times> int) list \<Rightarrow> int set \<Rightarrow> bool" where
  "expandidos_ok g D out V \<longleftrightarrow> (\<forall>(u, l)\<in>set out. l < D \<longrightarrow> (\<forall>w. arista g u w \<longrightarrow> w \<in> V))"

definition cercanos_ok :: "GrafoDisperso \<Rightarrow> int \<Rightarrow> int \<Rightarrow> int set \<Rightarrow> bool" where
  "cercanos_ok g s l V \<longleftrightarrow> (\<forall>v d. distancia g s v d \<and> int d \<le> l \<longrightarrow> v \<in> V)"

definition bfs_inv :: "GrafoDisperso \<Rightarrow> int \<Rightarrow> int \<Rightarrow> bool list \<Rightarrow> (int \<times> int) list
    \<Rightarrow> (int \<times> int) list \<Rightarrow> bool" where
  "bfs_inv g s D vis q out \<longleftrightarrow>
     marcas_ok g vis (vistos out q) \<and>
     niveles_ok g s D (out @ q) \<and>
     (\<forall>(v, k)\<in>set q. k \<le> snd (hd q) + 1) \<and>
     expandidos_ok g D out (vistos out q) \<and>
     (q \<noteq> [] \<longrightarrow> cercanos_ok g s (snd (hd q)) (vistos out q)) \<and>
     s \<in> vistos out q"

definition exp_inv :: "GrafoDisperso \<Rightarrow> int \<Rightarrow> int \<Rightarrow> int \<Rightarrow> int \<Rightarrow> bool list \<Rightarrow> (int \<times> int) list
    \<Rightarrow> (int \<times> int) list \<Rightarrow> bool" where
  "exp_inv g s D u l vis q out \<longleftrightarrow>
     marcas_ok g vis (vistos out q) \<and>
     niveles_ok g s D (out @ q) \<and>
     (\<forall>(v, k)\<in>set q. l \<le> k \<and> k \<le> l + 1) \<and>
     (\<forall>(v, k)\<in>set out. k \<le> l) \<and>
     (u, l) \<in> set out \<and> l < D \<and>
     expandidos_ok g D (filter (\<lambda>p. fst p \<noteq> u) out) (vistos out q) \<and>
     cercanos_ok g s l (vistos out q) \<and>
     s \<in> vistos out q"

lemma vistos_snoc: "vistos out (q @ [(w, k)]) = insert w (vistos out q)"
  by (auto simp: vistos_def)

lemma vistos_pop: "vistos (out @ [p]) q = vistos out (p # q)"
  by (auto simp: vistos_def)

lemma exp_inv_paso:
  assumes inv: "exp_inv g s D u l vis q out"
    and w: "nodo_valido g w" "arista g u w" "w \<notin> vistos out q"
  shows "exp_inv g s D u l (vis[nat w := True]) (q @ [(w, l + 1)]) out"
proof -
  let ?V = "vistos out q"
  from inv have m: "marcas_ok g vis ?V" and nv: "niveles_ok g s D (out @ q)"
    and ql: "\<forall>(v, k)\<in>set q. l \<le> k \<and> k \<le> l + 1" and ol: "\<forall>(v, k)\<in>set out. k \<le> l"
    and ul: "(u, l) \<in> set out" and lD: "l < D"
    and ex: "expandidos_ok g D (filter (\<lambda>p. fst p \<noteq> u) out) ?V"
    and ce: "cercanos_ok g s l ?V" and sV: "s \<in> ?V"
    by (auto simp: exp_inv_def)
  from nv ul have du: "distancia g s u (nat l)" and l0: "0 \<le> l"
    by (auto simp: niveles_ok_def)
  have dw: "distancia g s w (nat (l + 1))"
  proof -
    from distancia_sucesor [OF du w(2)] obtain d' where d': "d' \<le> Suc (nat l)" "distancia g s w d'"
      by blast
    have "\<not> int d' \<le> l" using ce d'(2) w(3) by (auto simp: cercanos_ok_def)
    with d'(1) l0 have "d' = nat (l + 1)" by linarith
    with d'(2) show ?thesis by simp
  qed
  have m': "marcas_ok g (vis[nat w := True]) (vistos out (q @ [(w, l + 1)]))"
    unfolding vistos_snoc marcas_ok_def
  proof (intro conjI allI impI)
    show "length (vis[nat w := True]) = nat (numNodos g)" using m by (simp add: marcas_ok_def)
  next
    fix v assume v: "nodo_valido g v"
    from w(1) v m have "nat w < length vis" "nat v < length vis" "nat v = nat w \<longleftrightarrow> v = w"
      by (auto simp: marcas_ok_def nodo_valido_def)
    with m v show "(vis[nat w := True]) ! nat v \<longleftrightarrow> v \<in> insert w ?V"
      by (auto simp: marcas_ok_def nth_list_update)
  qed
  have nv': "niveles_ok g s D (out @ q @ [(w, l + 1)])"
  proof -
    have "distinct (map fst (out @ q @ [(w, l + 1)]))"
      using nv w(3) by (auto simp: niveles_ok_def vistos_def)
    moreover have "sorted (map snd (out @ q @ [(w, l + 1)]))"
    proof -
      have "map snd (out @ q @ [(w, l + 1)]) = map snd (out @ q) @ [l + 1]" by simp
      moreover have "\<forall>k\<in>set (map snd (out @ q)). k \<le> l + 1" using ql ol by fastforce
      moreover have "sorted (map snd (out @ q))" using nv by (simp add: niveles_ok_def)
      ultimately show ?thesis by (simp only: sorted_append) simp
    qed
    moreover have "\<forall>(v, k)\<in>set (out @ q @ [(w, l + 1)]).
        nodo_valido g v \<and> 0 \<le> k \<and> k \<le> D \<and> distancia g s v (nat k)"
      using nv w(1) l0 lD dw by (auto simp: niveles_ok_def)
    ultimately show ?thesis by (simp add: niveles_ok_def)
  qed
  have "\<forall>(v, k)\<in>set (q @ [(w, l + 1)]). l \<le> k \<and> k \<le> l + 1" using ql by auto
  moreover have "expandidos_ok g D (filter (\<lambda>p. fst p \<noteq> u) out) (vistos out (q @ [(w, l + 1)]))"
    using ex unfolding vistos_snoc expandidos_ok_def by blast
  moreover have "cercanos_ok g s l (vistos out (q @ [(w, l + 1)]))"
    using ce unfolding vistos_snoc cercanos_ok_def by blast
  moreover have "s \<in> vistos out (q @ [(w, l + 1)])" using sV unfolding vistos_snoc by blast
  ultimately show ?thesis using m' nv' ol ul lD by (simp add: exp_inv_def)
qed

lemma visitar_vecinos_inv:
  assumes "\<forall>w\<in>set vs. nodo_valido g w \<and> arista g u w"
    and "exp_inv g s D u l vis q out"
  shows "\<exists>vis' q'. visitar_vecinos vs l (vis, q) = Some (vis', q') \<and>
           exp_inv g s D u l vis' q' out \<and> set vs \<subseteq> vistos out q' \<and> vistos out q \<subseteq> vistos out q'"
  using assms
proof (induction vs arbitrary: vis q)
  case Nil
  then show ?case by simp
next
  case (Cons w vs)
  from Cons.prems have w: "nodo_valido g w" "arista g u w" by auto
  from Cons.prems(2) have m: "marcas_ok g vis (vistos out q)" by (simp add: exp_inv_def)
  from m w(1) have rng: "0 \<le> w" "w < int (length vis)" and b: "vis ! nat w \<longleftrightarrow> w \<in> vistos out q"
    by (auto simp: marcas_ok_def nodo_valido_def)
  show ?case
  proof (cases "w \<in> vistos out q")
    case True
    from Cons.IH [of vis q] Cons.prems obtain vis' q' where
      r: "visitar_vecinos vs l (vis, q) = Some (vis', q')" "exp_inv g s D u l vis' q' out"
         "set vs \<subseteq> vistos out q'" "vistos out q \<subseteq> vistos out q'"
      by auto
    have "visitar_vecinos (w # vs) l (vis, q) = Some (vis', q')"
      using r(1) rng b True by (simp add: leer_def)
    with r True show ?thesis by auto
  next
    case False
    from exp_inv_paso [OF Cons.prems(2) w False]
    have inv': "exp_inv g s D u l (vis[nat w := True]) (q @ [(w, l + 1)]) out" .
    from Cons.IH [OF _ inv'] Cons.prems(1) obtain vis' q' where
      r: "visitar_vecinos vs l (vis[nat w := True], q @ [(w, l + 1)]) = Some (vis', q')"
         "exp_inv g s D u l vis' q' out"
         "set vs \<subseteq> vistos out q'" "vistos out (q @ [(w, l + 1)]) \<subseteq> vistos out q'"
      by auto
    have "visitar_vecinos (w # vs) l (vis, q) = Some (vis', q')"
      using r(1) rng b False by (simp add: leer_def escribir_def)
    with r show ?thesis unfolding vistos_snoc by auto
  qed
qed


lemma bfs_inv_saltar:
  assumes inv: "bfs_inv g s D vis ((u, l) # q) out" and lD: "l \<ge> D"
  shows "bfs_inv g s D vis q (out @ [(u, l)])"
proof -
  let ?V = "vistos out ((u, l) # q)"
  from inv have m: "marcas_ok g vis ?V" and nv: "niveles_ok g s D (out @ (u, l) # q)"
    and ql: "\<forall>(v, k)\<in>set q. k \<le> l + 1"
    and ex: "expandidos_ok g D out ?V" and ce: "cercanos_ok g s l ?V" and sV: "s \<in> ?V"
    by (auto simp: bfs_inv_def)
  from nv have srt: "sorted (map snd out @ l # map snd q)" by (simp add: niveles_ok_def)
  then have ge: "\<forall>(v, k)\<in>set q. l \<le> k" by (auto simp: sorted_append)
  from nv have le: "\<forall>(v, k)\<in>set q. k \<le> D" by (auto simp: niveles_ok_def)
  have "\<forall>(v, k)\<in>set q. k \<le> snd (hd q) + 1"
  proof (cases q)
    case Nil then show ?thesis by simp
  next
    case (Cons p q')
    with ge have "l \<le> snd p" by auto
    with ql Cons show ?thesis by auto
  qed
  moreover have "expandidos_ok g D (out @ [(u, l)]) ?V"
    using ex lD by (auto simp: expandidos_ok_def)
  moreover have "q \<noteq> [] \<longrightarrow> cercanos_ok g s (snd (hd q)) ?V"
  proof
    assume "q \<noteq> []"
    then obtain p q' where q: "q = p # q'" by (cases q) auto
    with ge le lD have "snd p = l" by fastforce
    with ce q show "cercanos_ok g s (snd (hd q)) ?V" by simp
  qed
  ultimately show ?thesis using m nv sV unfolding bfs_inv_def vistos_pop by simp
qed

lemma bfs_inv_exp_inv:
  assumes inv: "bfs_inv g s D vis ((u, l) # q) out" and lD: "l < D"
  shows "exp_inv g s D u l vis q (out @ [(u, l)])"
proof -
  let ?V = "vistos out ((u, l) # q)"
  from inv have m: "marcas_ok g vis ?V" and nv: "niveles_ok g s D (out @ (u, l) # q)"
    and ql: "\<forall>(v, k)\<in>set q. k \<le> l + 1"
    and ex: "expandidos_ok g D out ?V" and ce: "cercanos_ok g s l ?V" and sV: "s \<in> ?V"
    by (auto simp: bfs_inv_def)
  from nv have srt: "sorted (map snd out @ l # map snd q)" by (simp add: niveles_ok_def)
  then have ge: "\<forall>(v, k)\<in>set q. l \<le> k" and ol: "\<forall>(v, k)\<in>set out. k \<le> l"
    by (auto simp: sorted_append)
  have "\<forall>(v, k)\<in>set q. l \<le> k \<and> k \<le> l + 1" using ge ql by auto
  moreover have "\<forall>(v, k)\<in>set (out @ [(u, l)]). k \<le> l" using ol by auto
  moreover have "expandidos_ok g D (filter (\<lambda>p. fst p \<noteq> u) (out @ [(u, l)])) ?V"
    using ex by (auto simp: expandidos_ok_def)
  ultimately show ?thesis using m nv ce sV lD unfolding exp_inv_def vistos_pop by simp
qed

lemma exp_inv_bfs_inv:
  assumes inv: "exp_inv g s D u l vis q out" and cerr: "\<forall>w. arista g u w \<longrightarrow> w \<in> vistos out q"
  shows "bfs_inv g s D vis q out"
proof -
  let ?V = "vistos out q"
  from inv have m: "marcas_ok g vis ?V" and nv: "niveles_ok g s D (out @ q)"
    and ql: "\<forall>(v, k)\<in>set q. l \<le> k \<and> k \<le> l + 1" and ol: "\<forall>(v, k)\<in>set out. k \<le> l"
    and ul: "(u, l) \<in> set out" and lD: "l < D"
    and ex: "expandidos_ok g D (filter (\<lambda>p. fst p \<noteq> u) out) ?V"
    and ce: "cercanos_ok g s l ?V" and sV: "s \<in> ?V"
    by (auto simp: exp_inv_def)
  from nv ul have l0: "0 \<le> l" by (auto simp: niveles_ok_def)
  have ex': "expandidos_ok g D out ?V"
    unfolding expandidos_ok_def
  proof (intro ballI, clarify)
    fix p k w assume pk: "(p, k) \<in> set out" "k < D" "arista g p w"
    show "w \<in> ?V"
    proof (cases "p = u")
      case True with cerr pk show ?thesis by simp
    next
      case False
      with pk(1) have "(p, k) \<in> set (filter (\<lambda>p. fst p \<noteq> u) out)" by simp
      with ex pk(2,3) show ?thesis unfolding expandidos_ok_def by blast
    qed
  qed
  have hd1: "\<forall>(v, k)\<in>set q. k \<le> snd (hd q) + 1"
  proof (cases q)
    case Nil then show ?thesis by simp
  next
    case (Cons p q')
    with ql have "l \<le> snd p" by auto
    with ql Cons show ?thesis by auto
  qed
  have ce': "q \<noteq> [] \<longrightarrow> cercanos_ok g s (snd (hd q)) ?V"
  proof
    assume "q \<noteq> []"
    then obtain u' l' q' where q: "q = (u', l') # q'" by (cases q) auto
    with ql have l': "l \<le> l'" "l' \<le> l + 1" by auto
    from nv q have "sorted (l' # map snd q')" by (simp add: niveles_ok_def sorted_append)
    then have qge: "\<forall>(v, k)\<in>set q. l' \<le> k" using q by auto
    have "cercanos_ok g s l' ?V"
      unfolding cercanos_ok_def
    proof (intro allI impI)
      fix v d assume vd: "distancia g s v d \<and> int d \<le> l'"
      show "v \<in> ?V"
      proof (cases "int d \<le> l")
        case True with ce vd show ?thesis by (auto simp: cercanos_ok_def)
      next
        case False
        with vd l' l0 have d: "int d = l + 1" "l' = l + 1" by auto
        then obtain d0 where d0: "d = Suc d0" "int d0 = l" using l0 by (cases d) auto
        from distancia_predecesor [of g s v d0] vd d0 obtain p where
          p: "distancia g s p d0" "arista g p v" by auto
        from ce p(1) d0 have "p \<in> ?V" by (auto simp: cercanos_ok_def)
        then have "\<exists>k. (p, k) \<in> set (out @ q)" by (force simp: vistos_def)
        then obtain k where pk: "(p, k) \<in> set (out @ q)" ..
        with nv have "distancia g s p (nat k)" "0 \<le> k" by (auto simp: niveles_ok_def)
        with distancia_unica [OF p(1)] d0 have kl: "k = l" by auto
        have "(p, k) \<notin> set q" using qge d(2) kl by auto
        with pk have "(p, k) \<in> set out" by simp
        with ex' kl lD p(2) show ?thesis unfolding expandidos_ok_def by blast
      qed
    qed
    with q show "cercanos_ok g s (snd (hd q)) ?V" by simp
  qed
  show ?thesis using m nv hd1 ex' ce' sV by (simp add: bfs_inv_def)
qed

lemma bfs_bucle_inv:
  assumes ok: "csr_ok g"
  shows "bfs_inv g s D vis q out \<Longrightarrow>
    \<exists>res vis'. bfs_bucle g D (vis, q, out) = Some res \<and> bfs_inv g s D vis' [] res"
  using ok
proof (induction g D "(vis, q, out)" arbitrary: vis q out rule: bfs_bucle.induct)
  case (1 g prof visitado resultado)
  then show ?case by auto
next
  case (2 g prof visitado u l cola resultado)
  let ?out = "resultado @ [(u, l)]"
  show ?case
  proof (cases "l \<ge> prof")
    case True
    from "2.hyps"(1) [OF True bfs_inv_saltar [OF "2.prems"(1) True] "2.prems"(2)] True
    show ?thesis by simp
  next
    case False
    then have lD: "l < prof" by simp
    from "2.prems"(1) have "nodo_valido g u" by (auto simp: bfs_inv_def niveles_ok_def)
    from fila_ok [OF "2.prems"(2) this] obtain vs where
      vs: "fila g u = Some vs" "getVecinos g u = Some vs" "\<forall>w\<in>set vs. nodo_valido g w"
      by blast
    have ar: "\<And>w. arista g u w \<longleftrightarrow> w \<in> set vs" using vs(2) by (simp add: arista_def vecinos_de_def)
    from visitar_vecinos_inv [OF _ bfs_inv_exp_inv [OF "2.prems"(1) lD], of vs] vs(3) ar
    obtain vis' q' where
      r: "visitar_vecinos vs l (visitado, cola) = Some (vis', q')"
         "exp_inv g s prof u l vis' q' ?out" "set vs \<subseteq> vistos ?out q'"
      by auto
    from exp_inv_bfs_inv [OF r(2)] r(3) ar have "bfs_inv g s prof vis' q' ?out" by auto
    from "2.hyps"(2) [OF False vs(1) r(1) refl this "2.prems"(2)]
    show ?thesis using False vs(1) r(1) by simp
  qed
qed

lemma bfs_inv_inicial:
  assumes "csr_ok g" "nodo_valido g s" "0 \<le> D"
  shows "bfs_inv g s D ((replicate (nat (numNodos g)) False)[nat s := True]) [(s, 0)] []"
proof -
  have "marcas_ok g ((replicate (nat (numNodos g)) False)[nat s := True]) (vistos [] [(s, 0)])"
    using assms(2) by (auto simp: marcas_ok_def vistos_def nodo_valido_def nth_list_update)
  moreover have "niveles_ok g s D ([] @ [(s, 0)])"
    using assms(2,3) by (simp add: niveles_ok_def)
  moreover have "cercanos_ok g s 0 (vistos [] [(s, 0)])"
    by (auto simp: cercanos_ok_def vistos_def)
  ultimately show ?thesis by (simp add: bfs_inv_def expandidos_ok_def vistos_def)
qed

lemma bfs_inv_final:
  assumes "bfs_inv g s D vis [] res"
  shows "distinct (map fst res) \<and> sorted (map snd res) \<and>
    set res = {(v, k). 0 \<le> k \<and> k \<le> D \<and> distancia g s v (nat k)}"
proof -
  from assms have nv: "niveles_ok g s D res" and ex: "expandidos_ok g D res (fst ` set res)"
    and sV: "s \<in> fst ` set res"
    by (simp_all add: bfs_inv_def vistos_def)
  have sub: "\<And>v k. (v, k) \<in> set res \<Longrightarrow> 0 \<le> k \<and> k \<le> D \<and> distancia g s v (nat k)"
    using nv unfolding niveles_ok_def by blast
  have nivel: "\<And>v k d. (v, k) \<in> set res \<Longrightarrow> distancia g s v d \<Longrightarrow> k = int d"
  proof -
    fix v k d assume a: "(v, k) \<in> set res" "distancia g s v d"
    from sub [OF a(1)] have "distancia g s v (nat k)" "0 \<le> k" by simp_all
    with distancia_unica [OF a(2), of "nat k"] show "k = int d" by simp
  qed
  have sup: "distancia g s v d \<Longrightarrow> int d \<le> D \<Longrightarrow> (v, int d) \<in> set res" for v d
  proof (induction d arbitrary: v)
    case 0
    then have "v = s" by simp
    with sV have "\<exists>k. (v, k) \<in> set res" by force
    then obtain k where k: "(v, k) \<in> set res" ..
    from nivel [OF k "0.prems"(1)] k show ?case by simp
  next
    case (Suc d)
    from distancia_predecesor [OF Suc.prems(1)] obtain p where
      p: "distancia g s p d" "arista g p v" by blast
    from Suc.IH [OF p(1)] Suc.prems(2) have pd: "(p, int d) \<in> set res" by simp
    have "int d < D" using Suc.prems(2) by simp
    with pd ex p(2) have "v \<in> fst ` set res" unfolding expandidos_ok_def by blast
    then have "\<exists>k. (v, k) \<in> set res" by force
    then obtain k where k: "(v, k) \<in> set res" ..
    from nivel [OF k Suc.prems(1)] k show ?case by simp
  qed
  have "set res = {(v, k). 0 \<le> k \<and> k \<le> D \<and> distancia g s v (nat k)}"
  proof (intro set_eqI iffI)
    fix x assume "x \<in> set res"
    then have "(fst x, snd x) \<in> set res" by simp
    from sub [OF this] show "x \<in> {(v, k). 0 \<le> k \<and> k \<le> D \<and> distancia g s v (nat k)}"
      by (simp add: case_prod_beta)
  next
    fix x assume "x \<in> {(v, k). 0 \<le> k \<and> k \<le> D \<and> distancia g s v (nat k)}"
    then have x: "0 \<le> snd x" "snd x \<le> D" "distancia g s (fst x) (nat (snd x))"
      by (simp_all add: case_prod_beta)
    from sup [OF x(3)] x(1,2) have "(fst x, snd x) \<in> set res" by simp
    then show "x \<in> set res" by simp
  qed
  with nv show ?thesis by (simp add: niveles_ok_def)
qed

text \<open>
  On a well-formed graph, for every start node \<open>s\<close> in \<open>[0, numNodos)\<close> and every
  \<open>D \<ge> 0\<close>, \<open>BFS g s D\<close> returns a sequence of pairs in which no node occurs twice,
  the levels do not decrease, and whose pairs are exactly the \<open>(v, k)\<close> with
  \<open>0 \<le> k \<le> D\<close> and \<open>k\<close> the length of a shortest walk from \<open>s\<close> to \<open>v\<close> along the
  rows of the object.
\<close>

lemma bfs_bien_formado:
  assumes "csr_ok g" "0 \<le> s" "s < numNodos g" "0 \<le> D"
  shows "\<exists>res. BFS g s D = Some res \<and> distinct (map fst res) \<and> sorted (map snd res) \<and>
    set res = {(v, k). 0 \<le> k \<and> k \<le> D \<and> distancia g s v (nat k)}"
proof -
  from assms(2,3) have v: "nodo_valido g s" by (simp add: nodo_valido_def)
  from bfs_bucle_inv [OF assms(1) bfs_inv_inicial [OF assms(1) v assms(4)]]
  obtain res vis' where r: "bfs_bucle g D ((replicate (nat (numNodos g)) False)[nat s := True], [(s, 0)], []) = Some res"
    "bfs_inv g s D vis' [] res" by blast
  have "BFS g s D = Some res" using r(1) assms(2,3) by (simp add: BFS_def escribir_def)
  with bfs_inv_final [OF r(2)] show ?thesis by simp
qed

section \<open>DFS\<close>

text \<open>
  The recursive preorder traversal that the claim compares \<open>DFS\<close> with, as a big-step
  relation. \<open>preorden suc us out out'\<close>: visiting the siblings \<open>us\<close> from left to
  right, when the nodes of \<open>out\<close> have been visited so far in that order, ends with the
  visiting order \<open>out'\<close>. A sibling already visited is skipped; a new one is appended
  to the order, then its own successors \<open>suc u\<close> are visited recursively, then the
  remaining siblings.
\<close>

inductive preorden :: "(int \<Rightarrow> int list) \<Rightarrow> int list \<Rightarrow> int list \<Rightarrow> int list \<Rightarrow> bool"
  for suc :: "int \<Rightarrow> int list" where
  nada: "preorden suc [] out out"
| visto: "u \<in> set out \<Longrightarrow> preorden suc us out out' \<Longrightarrow> preorden suc (u # us) out out'"
| nuevo: "u \<notin> set out \<Longrightarrow> preorden suc (suc u) (out @ [u]) out1 \<Longrightarrow> preorden suc us out1 out'
          \<Longrightarrow> preorden suc (u # us) out out'"

code_pred preorden .

inductive_cases preorden_NilE: "preorden suc [] out r"
inductive_cases preorden_ConsE: "preorden suc (u # us) out r"

lemma preorden_determinista:
  "preorden suc us out r \<Longrightarrow> preorden suc us out r' \<Longrightarrow> r = r'"
proof (induction arbitrary: r' rule: preorden.induct)
  case (nada out)
  then show ?case by (auto elim: preorden_NilE)
next
  case (visto u out us out')
  from visto.prems visto.hyps(1) have "preorden suc us out r'"
    by (auto elim: preorden_ConsE)
  with visto.IH show ?case by simp
next
  case (nuevo u out out1 us out')
  from nuevo.prems nuevo.hyps(1) obtain o1 where
    "preorden suc (suc u) (out @ [u]) o1" "preorden suc us o1 r'"
    by (auto elim: preorden_ConsE)
  with nuevo.IH show ?case by blast
qed

lemma preorden_crece: "preorden suc us out r \<Longrightarrow> \<exists>ext. r = out @ ext"
  by (induction rule: preorden.induct) auto

lemma preorden_distinct: "preorden suc us out r \<Longrightarrow> distinct out \<Longrightarrow> distinct r"
  by (induction rule: preorden.induct) auto

lemma preorden_append:
  "preorden suc (xs @ ys) out r \<Longrightarrow> \<exists>m. preorden suc xs out m \<and> preorden suc ys m r"
proof (induction xs arbitrary: out)
  case Nil
  then show ?case by (auto intro: preorden.nada)
next
  case (Cons x xs)
  from Cons.prems have "preorden suc (x # (xs @ ys)) out r" by simp
  then show ?case
  proof (rule preorden_ConsE)
    assume a: "x \<in> set out" "preorden suc (xs @ ys) out r"
    from Cons.IH [OF a(2)] a(1) show ?thesis by (auto intro: preorden.visto)
  next
    fix out1
    assume a: "x \<notin> set out" "preorden suc (suc x) (out @ [x]) out1" "preorden suc (xs @ ys) out1 r"
    from Cons.IH [OF a(3)] a(1,2) show ?thesis by (auto intro: preorden.nuevo)
  qed
qed

lemma preorden_filtrado:
  "preorden suc (filter (\<lambda>v. v \<notin> S) xs @ ys) out r \<Longrightarrow> S \<subseteq> set out \<Longrightarrow>
   preorden suc (xs @ ys) out r"
proof (induction xs arbitrary: out)
  case Nil
  then show ?case by simp
next
  case (Cons x xs)
  show ?case
  proof (cases "x \<in> S")
    case True
    with Cons.prems have "preorden suc (xs @ ys) out r" "x \<in> set out"
      using Cons.IH by auto
    then show ?thesis by (auto intro: preorden.visto)
  next
    case False
    with Cons.prems(1) have "preorden suc (x # (filter (\<lambda>v. v \<notin> S) xs @ ys)) out r" by simp
    then show ?thesis
    proof (rule preorden_ConsE)
      assume a: "x \<in> set out" "preorden suc (filter (\<lambda>v. v \<notin> S) xs @ ys) out r"
      from Cons.IH [OF a(2) Cons.prems(2)] a(1) show ?thesis by (auto intro: preorden.visto)
    next
      fix out1
      assume a: "x \<notin> set out" "preorden suc (suc x) (out @ [x]) out1"
        "preorden suc (filter (\<lambda>v. v \<notin> S) xs @ ys) out1 r"
      from preorden_crece [OF a(2)] Cons.prems(2) have "S \<subseteq> set out1" by auto
      from Cons.IH [OF a(3) this] a(1,2) show ?thesis by (auto intro: preorden.nuevo)
    qed
  qed
qed

lemma preorden_cerrado:
  "preorden suc us out r \<Longrightarrow>
   set us \<subseteq> set r \<and> set out \<subseteq> set r \<and> (\<forall>x\<in>set r - set out. set (suc x) \<subseteq> set r)"
proof (induction rule: preorden.induct)
  case (nada out)
  then show ?case by simp
next
  case (visto u out us out')
  then show ?case by auto
next
  case (nuevo u out out1 us out')
  from nuevo.IH have a: "set (suc u) \<subseteq> set out1" "set (out @ [u]) \<subseteq> set out1"
    "\<forall>x\<in>set out1 - set (out @ [u]). set (suc x) \<subseteq> set out1"
    and b: "set us \<subseteq> set out'" "set out1 \<subseteq> set out'" "\<forall>x\<in>set out' - set out1. set (suc x) \<subseteq> set out'"
    by auto
  have "\<forall>x\<in>set out' - set out. set (suc x) \<subseteq> set out'"
  proof
    fix x assume x: "x \<in> set out' - set out"
    show "set (suc x) \<subseteq> set out'"
    proof (cases "x \<in> set out1")
      case False with x b(3) show ?thesis by auto
    next
      case True
      show ?thesis
      proof (cases "x = u")
        case True with a(1) b(2) show ?thesis by auto
      next
        case False
        with True x have "x \<in> set out1 - set (out @ [u])" by auto
        with a(3) b(2) show ?thesis by blast
      qed
    qed
  qed
  with a b show ?case by auto
qed

lemma preorden_origen:
  "preorden suc us out r \<Longrightarrow>
   \<forall>x\<in>set r - set out. \<exists>y\<in>set us. (y, x) \<in> {(a, b). b \<in> set (suc a)}\<^sup>*"
proof (induction rule: preorden.induct)
  case (nada out)
  then show ?case by simp
next
  case (visto u out us out')
  then show ?case by auto
next
  case (nuevo u out out1 us out')
  let ?E = "{(a, b). b \<in> set (suc a)}"
  show ?case
  proof
    fix x assume x: "x \<in> set out' - set out"
    show "\<exists>y\<in>set (u # us). (y, x) \<in> ?E\<^sup>*"
    proof (cases "x \<in> set out1")
      case False
      with x nuevo.IH(2) show ?thesis by auto
    next
      case True
      show ?thesis
      proof (cases "x = u")
        case True then show ?thesis by auto
      next
        case False
        with True x nuevo.IH(1) obtain y where y: "y \<in> set (suc u)" "(y, x) \<in> ?E\<^sup>*" by auto
        then have "(u, x) \<in> ?E\<^sup>*" by (auto intro: converse_rtrancl_into_rtrancl)
        then show ?thesis by auto
      qed
    qed
  qed
qed


text \<open>The inner loop pushes the unvisited neighbours so that the first of the row is on top.\<close>

lemma apilar_vecinos_filtra:
  assumes "\<forall>w\<in>set xs. 0 \<le> w \<and> w < int (length vis)"
  shows "apilar_vecinos xs vis pila = Some (rev (filter (\<lambda>v. \<not> vis ! nat v) xs) @ pila)"
  using assms by (induction xs arbitrary: pila) (auto simp: leer_def)

definition dfs_inv :: "GrafoDisperso \<Rightarrow> bool list \<Rightarrow> int list \<Rightarrow> int list \<Rightarrow> bool" where
  "dfs_inv g vis pila out \<longleftrightarrow>
     marcas_ok g vis (set out) \<and> (\<forall>v\<in>set pila. nodo_valido g v) \<and> distinct out"

lemma marcas_ok_marcar:
  assumes "marcas_ok g vis V" "nodo_valido g w"
  shows "marcas_ok g (vis[nat w := True]) (insert w V)"
  unfolding marcas_ok_def
proof (intro conjI allI impI)
  show "length (vis[nat w := True]) = nat (numNodos g)" using assms(1) by (simp add: marcas_ok_def)
next
  fix v assume v: "nodo_valido g v"
  from assms v have "nat w < length vis" "nat v < length vis" "nat v = nat w \<longleftrightarrow> v = w"
    by (auto simp: marcas_ok_def nodo_valido_def)
  with assms(1) v show "(vis[nat w := True]) ! nat v \<longleftrightarrow> v \<in> insert w V"
    by (auto simp: marcas_ok_def nth_list_update)
qed

lemma dfs_bucle_preorden:
  "csr_ok g \<Longrightarrow> dfs_inv g vis pila out \<Longrightarrow>
    \<exists>res. dfs_bucle g (vis, pila, out) = Some res \<and> preorden (vecinos_de g) pila out res"
proof (induction g "(vis, pila, out)" arbitrary: vis pila out rule: dfs_bucle.induct)
  case (1 g visitado resultado)
  then show ?case by (auto intro: preorden.nada)
next
  case (2 g visitado u pila resultado)
  from "2.prems"(2) have m: "marcas_ok g visitado (set resultado)"
    and pv: "\<forall>v\<in>set pila. nodo_valido g v" and uv: "nodo_valido g u" and dis: "distinct resultado"
    by (auto simp: dfs_inv_def)
  from m uv have rng: "0 \<le> u" "u < int (length visitado)"
    and b: "visitado ! nat u \<longleftrightarrow> u \<in> set resultado"
    by (auto simp: marcas_ok_def nodo_valido_def)
  then have lu: "leer visitado u = Some (visitado ! nat u)" by (simp add: leer_def)
  show ?case
  proof (cases "visitado ! nat u")
    case True
    have "dfs_inv g visitado pila resultado" using m pv dis by (simp add: dfs_inv_def)
    from "2.hyps"(1) [OF lu True "2.prems"(1) this] obtain res where
      r: "dfs_bucle g (visitado, pila, resultado) = Some res"
         "preorden (vecinos_de g) pila resultado res" by blast
    from r(2) True b have "preorden (vecinos_de g) (u # pila) resultado res"
      by (auto intro: preorden.visto)
    moreover have "dfs_bucle g (visitado, u # pila, resultado) = Some res"
      using lu True r(1) by simp
    ultimately show ?thesis by blast
  next
    case False
    define vis' where "vis' = visitado[nat u := True]"
    have wu: "escribir visitado u True = Some vis'" using rng by (simp add: escribir_def vis'_def)
    from fila_ok [OF "2.prems"(1) uv] obtain vs where
      vs: "fila g u = Some vs" "getVecinos g u = Some vs" "\<forall>w\<in>set vs. nodo_valido g w"
      by blast
    have suc_u: "vecinos_de g u = vs" using vs(2) by (simp add: vecinos_de_def)
    have m': "marcas_ok g vis' (set (resultado @ [u]))"
      using marcas_ok_marcar [OF m uv] by (simp add: vis'_def)
    define pila' where "pila' = filter (\<lambda>v. \<not> vis' ! nat v) vs @ pila"
    have "\<forall>w\<in>set (rev vs). 0 \<le> w \<and> w < int (length vis')"
      using vs(3) m' by (auto simp: marcas_ok_def nodo_valido_def)
    from apilar_vecinos_filtra [OF this, of pila]
    have ap: "apilar_vecinos (rev vs) vis' pila = Some pila'"
      by (simp add: pila'_def rev_filter)
    have pf: "pila' = filter (\<lambda>v. v \<notin> set (resultado @ [u])) vs @ pila"
    proof -
      have "filter (\<lambda>v. \<not> vis' ! nat v) vs = filter (\<lambda>v. v \<notin> set (resultado @ [u])) vs"
        using vs(3) m' by (intro filter_cong) (auto simp: marcas_ok_def)
      then show ?thesis by (simp add: pila'_def)
    qed
    have "dfs_inv g vis' pila' (resultado @ [u])"
      using m' pv vs(3) dis b False by (auto simp: dfs_inv_def pila'_def)
    from "2.hyps"(2) [OF lu False wu vs(1) ap "2.prems"(1) this] obtain res where
      r: "dfs_bucle g (vis', pila', resultado @ [u]) = Some res"
         "preorden (vecinos_de g) pila' (resultado @ [u]) res" by blast
    from r(2) have "preorden (vecinos_de g) (vs @ pila) (resultado @ [u]) res"
      unfolding pf by (rule preorden_filtrado) simp
    from preorden_append [OF this] obtain m1 where
      "preorden (vecinos_de g) vs (resultado @ [u]) m1" "preorden (vecinos_de g) pila m1 res"
      by blast
    with b False suc_u have "preorden (vecinos_de g) (u # pila) resultado res"
      by (auto intro: preorden.nuevo)
    moreover have "dfs_bucle g (visitado, u # pila, resultado) = Some res"
      using lu False wu vs(1) ap r(1) by simp
    ultimately show ?thesis by blast
  qed
qed

text \<open>Every row is ascending, as \<open>construirCSR\<close> leaves it.\<close>

definition filas_ordenadas :: "GrafoDisperso \<Rightarrow> bool" where
  "filas_ordenadas g \<longleftrightarrow> list_all (\<lambda>u. sorted (vecinos_de g u)) [0..numNodos g - 1]"

lemma vecinos_de_invalido: "\<not> nodo_valido g u \<Longrightarrow> vecinos_de g u = []"
  by (auto simp: vecinos_de_def getVecinos_def nodo_valido_def)

lemma filas_ordenadas_sort:
  assumes "filas_ordenadas g"
  shows "(\<lambda>u. sort (vecinos_de g u)) = vecinos_de g"
proof
  fix u
  show "sort (vecinos_de g u) = vecinos_de g u"
  proof (cases "nodo_valido g u")
    case True
    then have "u \<in> set [0..numNodos g - 1]" by (auto simp: nodo_valido_def)
    with assms have "sorted (vecinos_de g u)" by (simp add: filas_ordenadas_def list_all_iff)
    then show ?thesis by (rule sorted_sort_id)
  next
    case False
    then show ?thesis by (simp add: vecinos_de_invalido)
  qed
qed

lemma alcanza_rtrancl:
  "(\<exists>k. alcanza_en g s k v) \<longleftrightarrow> (s, v) \<in> {(a, b). b \<in> set (vecinos_de g a)}\<^sup>*"
proof
  assume "\<exists>k. alcanza_en g s k v"
  then obtain k where "alcanza_en g s k v" ..
  then show "(s, v) \<in> {(a, b). b \<in> set (vecinos_de g a)}\<^sup>*"
  proof (induction k arbitrary: v)
    case 0 then show ?case by simp
  next
    case (Suc k)
    then obtain u where "alcanza_en g s k u" "arista g u v" by (auto simp: alcanza_en_Suc)
    with Suc.IH [of u] show ?case by (auto simp: arista_def intro: rtrancl_into_rtrancl)
  qed
next
  assume "(s, v) \<in> {(a, b). b \<in> set (vecinos_de g a)}\<^sup>*"
  then show "\<exists>k. alcanza_en g s k v"
  proof (induction rule: rtrancl_induct)
    case base
    have "alcanza_en g s 0 s" by simp
    then show ?case ..
  next
    case (step y z)
    then obtain k where "alcanza_en g s k y" by blast
    with step(2) have "alcanza_en g s (Suc k) z" by (auto simp: alcanza_en_Suc arista_def)
    then show ?case ..
  qed
qed

text \<open>
  On a well-formed graph with ascending rows, for every start node \<open>s\<close> in
  \<open>[0, numNodos)\<close>, \<open>DFS g s\<close> returns the order in which the recursive preorder
  traversal from \<open>s\<close> over the rows visits the nodes; no node occurs twice in it, and its
  nodes are exactly the nodes reachable from \<open>s\<close> along the rows.
\<close>

lemma dfs_bien_formado:
  assumes "csr_ok g" "filas_ordenadas g" "0 \<le> s" "s < numNodos g"
  shows "\<exists>res. DFS g s = Some res \<and> preorden (\<lambda>u. sort (vecinos_de g u)) [s] [] res \<and>
    distinct res \<and> set res = {v. \<exists>k. alcanza_en g s k v}"
proof -
  let ?E = "{(a, b). b \<in> set (vecinos_de g a)}"
  from assms(3,4) have v: "nodo_valido g s" by (simp add: nodo_valido_def)
  have "dfs_inv g (replicate (nat (numNodos g)) False) [s] []"
    using v by (auto simp: dfs_inv_def marcas_ok_def nodo_valido_def)
  from dfs_bucle_preorden [OF assms(1) this] obtain res where
    r: "dfs_bucle g (replicate (nat (numNodos g)) False, [s], []) = Some res"
       "preorden (vecinos_de g) [s] [] res" by blast
  have d: "DFS g s = Some res" using r(1) assms(3,4) by (simp add: DFS_def)
  from preorden_cerrado [OF r(2)] have cl: "s \<in> set res" "\<forall>x\<in>set res. set (vecinos_de g x) \<subseteq> set res"
    by auto
  have sup: "(s, x) \<in> ?E\<^sup>* \<Longrightarrow> x \<in> set res" for x
    by (induction rule: rtrancl_induct) (use cl in auto)
  from preorden_origen [OF r(2)] have sub: "\<forall>x\<in>set res. (s, x) \<in> ?E\<^sup>*" by simp
  have "set res = {v. \<exists>k. alcanza_en g s k v}"
    unfolding alcanza_rtrancl using sup sub by blast
  moreover from preorden_distinct [OF r(2)] have "distinct res" by simp
  ultimately show ?thesis using d r(2) filas_ordenadas_sort [OF assms(2)] by simp
qed


section \<open>getAristasSubgrafo\<close>

text \<open>The edges that a sequence of dequeued \<open>(node, level)\<close> pairs contributes: the whole
  row of every node whose level is below the depth bound.\<close>

definition aristas_de :: "GrafoDisperso \<Rightarrow> int \<Rightarrow> (int \<times> int) list \<Rightarrow> (int \<times> int) list" where
  "aristas_de g D res =
     concat (map (\<lambda>(u, l). if l < D then map (Pair u) (vecinos_de g u) else []) res)"

lemma aristas_de_Nil [simp]: "aristas_de g D [] = []"
  by (simp add: aristas_de_def)

lemma aristas_de_Cons:
  "aristas_de g D ((u, l) # res) =
     (if l < D then map (Pair u) (vecinos_de g u) else []) @ aristas_de g D res"
  by (simp add: aristas_de_def)

text \<open>The two inner loops run in step: the set \<open>nodosEnSubgrafo\<close> holds the nodes that
  BFS has marked, both push the same neighbours, and \<open>agregar_vecinos\<close> appends the row.\<close>

lemma agregar_visitar:
  assumes "\<forall>w\<in>set vs. nodo_valido g w" "marcas_ok g vis S"
  shows "\<exists>vis' q' S'. visitar_vecinos vs l (vis, q) = Some (vis', q') \<and>
           agregar_vecinos u vs l (S, q, ar) = (S', q', ar @ map (Pair u) vs) \<and>
           marcas_ok g vis' S' \<and> (\<forall>p\<in>set q'. p \<in> set q \<or> nodo_valido g (fst p))"
  using assms
proof (induction vs arbitrary: vis q S ar)
  case Nil
  then show ?case by simp
next
  case (Cons w vs)
  from Cons.prems have w: "nodo_valido g w" and vs: "\<forall>w\<in>set vs. nodo_valido g w" by auto
  from Cons.prems(2) w have rng: "0 \<le> w" "w < int (length vis)" and b: "vis ! nat w \<longleftrightarrow> w \<in> S"
    by (auto simp: marcas_ok_def nodo_valido_def)
  show ?case
  proof (cases "w \<in> S")
    case True
    from Cons.IH [OF vs Cons.prems(2), of q "ar @ [(u, w)]"] obtain vis' q' S' where
      r: "visitar_vecinos vs l (vis, q) = Some (vis', q')"
         "agregar_vecinos u vs l (S, q, ar @ [(u, w)]) = (S', q', (ar @ [(u, w)]) @ map (Pair u) vs)"
         "marcas_ok g vis' S'" "\<forall>p\<in>set q'. p \<in> set q \<or> nodo_valido g (fst p)"
      by blast
    have "visitar_vecinos (w # vs) l (vis, q) = Some (vis', q')"
      using r(1) rng b True by (simp add: leer_def)
    moreover have "agregar_vecinos u (w # vs) l (S, q, ar) = (S', q', ar @ map (Pair u) (w # vs))"
      using r(2) True by simp
    ultimately show ?thesis using r(3,4) by blast
  next
    case False
    from Cons.IH [OF vs marcas_ok_marcar [OF Cons.prems(2) w], of "q @ [(w, l + 1)]" "ar @ [(u, w)]"]
    obtain vis' q' S' where
      r: "visitar_vecinos vs l (vis[nat w := True], q @ [(w, l + 1)]) = Some (vis', q')"
         "agregar_vecinos u vs l (insert w S, q @ [(w, l + 1)], ar @ [(u, w)])
            = (S', q', (ar @ [(u, w)]) @ map (Pair u) vs)"
         "marcas_ok g vis' S'" "\<forall>p\<in>set q'. p \<in> set (q @ [(w, l + 1)]) \<or> nodo_valido g (fst p)"
      by blast
    have "visitar_vecinos (w # vs) l (vis, q) = Some (vis', q')"
      using r(1) rng b False by (simp add: leer_def escribir_def)
    moreover have "agregar_vecinos u (w # vs) l (S, q, ar) = (S', q', ar @ map (Pair u) (w # vs))"
      using r(2) False by simp
    moreover have "\<forall>p\<in>set q'. p \<in> set q \<or> nodo_valido g (fst p)" using r(4) w by auto
    ultimately show ?thesis using r(3) by blast
  qed
qed

lemma subgrafo_bfs:
  "csr_ok g \<Longrightarrow> marcas_ok g vis S \<Longrightarrow> \<forall>p\<in>set q. nodo_valido g (fst p) \<Longrightarrow>
    \<exists>rest. bfs_bucle g D (vis, q, out) = Some (out @ rest) \<and>
           subgrafo_bucle g D (S, q, ar) = Some (ar @ aristas_de g D rest)"
proof (induction g D "(vis, q, out)" arbitrary: vis q out S ar rule: bfs_bucle.induct)
  case (1 g prof visitado resultado)
  then show ?case by simp
next
  case (2 g prof visitado u l cola resultado)
  from "2.prems"(3) have uv: "nodo_valido g u" and cv: "\<forall>p\<in>set cola. nodo_valido g (fst p)"
    by auto
  show ?case
  proof (cases "l \<ge> prof")
    case True
    from "2.hyps"(1) [OF True "2.prems"(1,2) cv, of ar] obtain rest where
      r: "bfs_bucle g prof (visitado, cola, resultado @ [(u, l)]) = Some ((resultado @ [(u, l)]) @ rest)"
         "subgrafo_bucle g prof (S, cola, ar) = Some (ar @ aristas_de g prof rest)" by blast
    have "bfs_bucle g prof (visitado, (u, l) # cola, resultado) = Some (resultado @ ((u, l) # rest))"
      using r(1) True by simp
    moreover have "subgrafo_bucle g prof (S, (u, l) # cola, ar)
        = Some (ar @ aristas_de g prof ((u, l) # rest))"
      using r(2) True by (simp add: aristas_de_Cons)
    ultimately show ?thesis by blast
  next
    case False
    from fila_ok [OF "2.prems"(1) uv] obtain vs where
      vs: "fila g u = Some vs" "getVecinos g u = Some vs" "\<forall>w\<in>set vs. nodo_valido g w"
      by blast
    have suc_u: "vecinos_de g u = vs" using vs(2) by (simp add: vecinos_de_def)
    from agregar_visitar [OF vs(3) "2.prems"(2), of l cola u ar] obtain vis' q' S' where
      a: "visitar_vecinos vs l (visitado, cola) = Some (vis', q')"
         "agregar_vecinos u vs l (S, cola, ar) = (S', q', ar @ map (Pair u) vs)"
         "marcas_ok g vis' S'" "\<forall>p\<in>set q'. p \<in> set cola \<or> nodo_valido g (fst p)"
      by blast
    from a(4) cv have qv: "\<forall>p\<in>set q'. nodo_valido g (fst p)" by auto
    from "2.hyps"(2) [OF False vs(1) a(1) refl "2.prems"(1) a(3) qv, of "ar @ map (Pair u) vs"]
    obtain rest where
      r: "bfs_bucle g prof (vis', q', resultado @ [(u, l)]) = Some ((resultado @ [(u, l)]) @ rest)"
         "subgrafo_bucle g prof (S', q', ar @ map (Pair u) vs)
            = Some ((ar @ map (Pair u) vs) @ aristas_de g prof rest)" by blast
    have "bfs_bucle g prof (visitado, (u, l) # cola, resultado) = Some (resultado @ ((u, l) # rest))"
      using r(1) False vs(1) a(1) by simp
    moreover have "subgrafo_bucle g prof (S, (u, l) # cola, ar)
        = Some (ar @ aristas_de g prof ((u, l) # rest))"
      using r(2) False vs(1) a(2) suc_u by (simp add: aristas_de_Cons)
    ultimately show ?thesis by blast
  qed
qed

text \<open>
  Claim C6. On a well-formed graph, for every start node \<open>s\<close> in \<open>[0, numNodos)\<close> and every
  \<open>D\<close>, the queue of \<open>getAristasSubgrafo g s D\<close> goes through the same \<open>(node, level)\<close>
  pairs as the queue of \<open>BFS g s D\<close>, whose output is its dequeue order; no node is
  dequeued twice (a neighbour is enqueued only when it is first discovered); and the
  result is, in dequeue order, the whole row of every node dequeued at a level below
  \<open>D\<close>, so also the edges into nodes that were discovered before.
\<close>

theorem subgrafo_correcto:
  assumes "csr_ok g" "0 \<le> s" "s < numNodos g"
  shows "\<exists>res. BFS g s D = Some res \<and> distinct (map fst res) \<and>
    getAristasSubgrafo g s D =
      Some (concat (map (\<lambda>(u, l). if l < D then map (Pair u) (vecinos_de g u) else []) res))"
proof -
  from assms(2,3) have v: "nodo_valido g s" by (simp add: nodo_valido_def)
  let ?vis = "(replicate (nat (numNodos g)) False)[nat s := True]"
  have "marcas_ok g (replicate (nat (numNodos g)) False) {}"
    by (simp add: marcas_ok_def nodo_valido_def)
  from marcas_ok_marcar [OF this v] have m: "marcas_ok g ?vis {s}" .
  from subgrafo_bfs [OF assms(1) m, of "[(s, 0)]" D "[]" "[]"] v obtain res where
    r: "bfs_bucle g D (?vis, [(s, 0)], []) = Some res"
       "subgrafo_bucle g D ({s}, [(s, 0)], []) = Some (aristas_de g D res)" by auto
  have b: "BFS g s D = Some res" using r(1) assms(2,3) by (simp add: BFS_def escribir_def)
  have "distinct (map fst res)"
  proof (cases "0 \<le> D")
    case True
    from bfs_bucle_inv [OF assms(1) bfs_inv_inicial [OF assms(1) v True]] r(1)
    obtain vis' where "bfs_inv g s D vis' [] res" by auto
    from bfs_inv_final [OF this] show ?thesis by simp
  next
    case False
    then have "bfs_bucle g D (?vis, [(s, 0)], []) = Some [(s, 0)]" by simp
    with r(1) show ?thesis by simp
  qed
  moreover have "getAristasSubgrafo g s D = Some (aristas_de g D res)"
    using r(2) assms(2,3) by (simp add: getAristasSubgrafo_def)
  ultimately show ?thesis using b by (simp add: aristas_de_def)
qed

theorem subgrafo_correcto_witness:
  "csr_ok grafo_ejemplo \<and> (0::int) \<le> 0 \<and> 0 < numNodos grafo_ejemplo \<and>
   BFS grafo_ejemplo 0 2 = Some [(0, 0), (1, 1), (2, 1)] \<and>
   getAristasSubgrafo grafo_ejemplo 0 2 = Some [(0, 1), (0, 2), (1, 2), (2, 0)]"
proof -
  have h1: "csr_ok grafo_ejemplo" by (simp add: csr_ok_def grafo_ejemplo_def)
  have h2: "(0::int) \<le> 0" by simp
  have h3: "0 < numNodos grafo_ejemplo" by (simp add: grafo_ejemplo_def)
  have e: "BFS grafo_ejemplo 0 2 = Some [(0, 0), (1, 1), (2, 1)]" by code_simp
  have v: "vecinos_de grafo_ejemplo 0 = [1, 2]" "vecinos_de grafo_ejemplo 1 = [2]"
    "vecinos_de grafo_ejemplo 2 = [0]" by code_simp+
  from subgrafo_correcto [OF h1 h2 h3, of 2] e v h1 h3 show ?thesis by simp
qed

section \<open>construirCSR on a new object\<close>

text \<open>
  What the edge list determines: the number of edges out of a node and into a node, the
  offset of a row (the number of edges whose origin is smaller), and the destinations of
  the edges out of a node, in the order of the list.
\<close>

definition cuenta_origen :: "(int \<times> int) list \<Rightarrow> int \<Rightarrow> int" where
  "cuenta_origen as u = int (length (filter (\<lambda>e. fst e = u) as))"

definition cuenta_destino :: "(int \<times> int) list \<Rightarrow> int \<Rightarrow> int" where
  "cuenta_destino as v = int (length (filter (\<lambda>e. snd e = v) as))"

definition inicio_fila :: "(int \<times> int) list \<Rightarrow> int \<Rightarrow> int" where
  "inicio_fila as u = int (length (filter (\<lambda>e. fst e < u) as))"

definition destinos :: "(int \<times> int) list \<Rightarrow> int \<Rightarrow> int list" where
  "destinos as u = map snd (filter (\<lambda>e. fst e = u) as)"

text \<open>The first loop adds to every counter the number of edges that select it.\<close>

lemma contar_grados_ok:
  assumes "\<forall>(u, v)\<in>set as. 0 \<le> u \<and> u + 1 < int (length rp) \<and> 0 \<le> v \<and> v < int (length ge)"
  shows "contar_grados as (rp, ge) =
    Some (map (\<lambda>j. rp ! j + cuenta_origen as (int j - 1)) [0..<length rp],
          map (\<lambda>j. ge ! j + cuenta_destino as (int j)) [0..<length ge])"
  using assms
proof (induction as arbitrary: rp ge)
  case Nil
  then show ?case by (simp add: cuenta_origen_def cuenta_destino_def map_nth)
next
  case (Cons e as)
  obtain u v where e: "e = (u, v)" by (cases e)
  from Cons.prems e have r: "0 \<le> u" "u + 1 < int (length rp)" "0 \<le> v" "v < int (length ge)"
    by auto
  define rp1 where "rp1 = rp[nat (u + 1) := rp ! nat (u + 1) + 1]"
  define ge1 where "ge1 = ge[nat v := ge ! nat v + 1]"
  have pre: "\<forall>(u, v)\<in>set as. 0 \<le> u \<and> u + 1 < int (length rp1) \<and> 0 \<le> v \<and> v < int (length ge1)"
    using Cons.prems by (auto simp: rp1_def ge1_def)
  have step: "contar_grados (e # as) (rp, ge) = contar_grados as (rp1, ge1)"
    using r by (simp add: e leer_def escribir_def rp1_def ge1_def)
  have a: "map (\<lambda>j. rp1 ! j + cuenta_origen as (int j - 1)) [0..<length rp1]
         = map (\<lambda>j. rp ! j + cuenta_origen (e # as) (int j - 1)) [0..<length rp]"
  proof (rule nth_equalityI)
    show "length (map (\<lambda>j. rp1 ! j + cuenta_origen as (int j - 1)) [0..<length rp1])
        = length (map (\<lambda>j. rp ! j + cuenta_origen (e # as) (int j - 1)) [0..<length rp])"
      by (simp add: rp1_def)
  next
    fix j assume "j < length (map (\<lambda>j. rp1 ! j + cuenta_origen as (int j - 1)) [0..<length rp1])"
    then have j: "j < length rp" by (simp add: rp1_def)
    have "rp1 ! j + cuenta_origen as (int j - 1) = rp ! j + cuenta_origen (e # as) (int j - 1)"
    proof (cases "j = nat (u + 1)")
      case True
      with r have "int j - 1 = u" by simp
      with True j show ?thesis by (simp add: rp1_def cuenta_origen_def e)
    next
      case False
      with r have "int j - 1 \<noteq> u" by auto
      with False j show ?thesis by (simp add: rp1_def cuenta_origen_def e)
    qed
    with j show "map (\<lambda>j. rp1 ! j + cuenta_origen as (int j - 1)) [0..<length rp1] ! j
        = map (\<lambda>j. rp ! j + cuenta_origen (e # as) (int j - 1)) [0..<length rp] ! j"
      by (simp add: rp1_def)
  qed
  have b: "map (\<lambda>j. ge1 ! j + cuenta_destino as (int j)) [0..<length ge1]
         = map (\<lambda>j. ge ! j + cuenta_destino (e # as) (int j)) [0..<length ge]"
  proof (rule nth_equalityI)
    show "length (map (\<lambda>j. ge1 ! j + cuenta_destino as (int j)) [0..<length ge1])
        = length (map (\<lambda>j. ge ! j + cuenta_destino (e # as) (int j)) [0..<length ge])"
      by (simp add: ge1_def)
  next
    fix j assume "j < length (map (\<lambda>j. ge1 ! j + cuenta_destino as (int j)) [0..<length ge1])"
    then have j: "j < length ge" by (simp add: ge1_def)
    have "ge1 ! j + cuenta_destino as (int j) = ge ! j + cuenta_destino (e # as) (int j)"
    proof (cases "j = nat v")
      case True
      with r have "int j = v" by simp
      with True j show ?thesis by (simp add: ge1_def cuenta_destino_def e)
    next
      case False
      with r have "int j \<noteq> v" by auto
      with False j show ?thesis by (simp add: ge1_def cuenta_destino_def e)
    qed
    with j show "map (\<lambda>j. ge1 ! j + cuenta_destino as (int j)) [0..<length ge1] ! j
        = map (\<lambda>j. ge ! j + cuenta_destino (e # as) (int j)) [0..<length ge] ! j"
      by (simp add: ge1_def)
  qed
  from Cons.IH [OF pre] step a b show ?case by simp
qed


text \<open>The second loop replaces every entry by the sum of the entries up to it.\<close>

lemma acumular_ok:
  assumes "length c = Suc n"
  shows "length r = Suc n \<Longrightarrow> 1 \<le> i \<Longrightarrow> i \<le> Suc n \<Longrightarrow>
    \<forall>j<i. r ! j = sum_list (take (Suc j) c) \<Longrightarrow>
    \<forall>j. i \<le> j \<and> j \<le> n \<longrightarrow> r ! j = c ! j \<Longrightarrow>
    acumular (int i) (int n) r = Some (map (\<lambda>j. sum_list (take (Suc j) c)) [0..<Suc n])"
proof (induction "Suc n - i" arbitrary: i r)
  case 0
  then have i: "i = Suc n" by simp
  have "r = map (\<lambda>j. sum_list (take (Suc j) c)) [0..<Suc n]"
    using "0.prems"(1,4) i by (intro nth_equalityI) (auto simp del: upt_Suc)
  moreover have "acumular (int i) (int n) r = Some r"
    using i by (subst acumular.simps) simp
  ultimately show ?case by simp
next
  case (Suc k)
  then have i: "i \<le> n" "1 \<le> i" by auto
  define r' where "r' = r[i := r ! i + r ! (i - 1)]"
  have li: "leer r (int i) = Some (r ! i)" using i Suc.prems(1) by (simp add: leer_def)
  have li1: "leer r (int i - 1) = Some (r ! (i - 1))"
    using i Suc.prems(1) by (simp add: leer_def nat_diff_distrib')
  have wi: "escribir r (int i) (r ! i + r ! (i - 1)) = Some r'"
    using i Suc.prems(1) by (simp add: escribir_def r'_def)
  have step: "acumular (int i) (int n) r = acumular (int (Suc i)) (int n) r'"
    using i li li1 wi by (subst acumular.simps) (simp add: add.commute)
  have ri: "r ! i = c ! i" using Suc.prems(5) i by simp
  have ri1: "r ! (i - 1) = sum_list (take i c)" using Suc.prems(4) [rule_format, of "i - 1"] i by simp
  have tk: "take (Suc i) c = take i c @ [c ! i]" using i assms by (simp add: take_Suc_conv_app_nth)
  have new: "r' ! i = sum_list (take (Suc i) c)"
    using i Suc.prems(1) ri ri1 tk by (simp add: r'_def)
  have a: "\<forall>j<Suc i. r' ! j = sum_list (take (Suc j) c)"
  proof (intro allI impI)
    fix j assume "j < Suc i"
    then consider "j = i" | "j < i" by linarith
    then show "r' ! j = sum_list (take (Suc j) c)"
    proof cases
      case 1 with new show ?thesis by simp
    next
      case 2 with Suc.prems(4) show ?thesis by (simp add: r'_def)
    qed
  qed
  have b: "\<forall>j. Suc i \<le> j \<and> j \<le> n \<longrightarrow> r' ! j = c ! j"
    using Suc.prems(5) by (simp add: r'_def)
  have "acumular (int (Suc i)) (int n) r' = Some (map (\<lambda>j. sum_list (take (Suc j) c)) [0..<Suc n])"
    using Suc.hyps(2) Suc.prems(1) i a b by (intro Suc.hyps(1)) (auto simp: r'_def)
  with step show ?case by simp
qed

lemma inicio_fila_suc: "inicio_fila as (u + 1) = inicio_fila as u + cuenta_origen as u"
  by (induction as) (auto simp: inicio_fila_def cuenta_origen_def)

lemma inicio_fila_mono: "u \<le> v \<Longrightarrow> inicio_fila as u \<le> inicio_fila as v"
  by (induction as) (auto simp: inicio_fila_def)

lemma suma_cuentas:
  assumes "\<forall>e\<in>set as. 0 \<le> fst e"
  shows "sum_list (map (\<lambda>j. cuenta_origen as (int j - 1)) [0..<Suc k]) = inicio_fila as (int k)"
proof (induction k)
  case 0
  have "filter (\<lambda>e. fst e = - 1) as = []" "filter (\<lambda>e. fst e < 0) as = []"
    using assms by (auto simp: filter_empty_conv)
  then show ?case by (simp add: cuenta_origen_def inicio_fila_def)
next
  case (Suc k)
  have "inicio_fila as (int (Suc k)) = inicio_fila as (int k) + cuenta_origen as (int k)"
    using inicio_fila_suc [of as "int k"] by (simp add: add.commute)
  with Suc show ?case by simp
qed


lemma inicio_fila_cota: "inicio_fila as u \<le> int (length as)"
  by (simp add: inicio_fila_def)

lemma inicio_fila_no_neg: "0 \<le> inicio_fila as u"
  by (simp add: inicio_fila_def)

lemma cuenta_origen_append: "cuenta_origen (xs @ ys) u = cuenta_origen xs u + cuenta_origen ys u"
  by (simp add: cuenta_origen_def)

lemma length_destinos: "int (length (destinos as u)) = cuenta_origen as u"
  by (simp add: destinos_def cuenta_origen_def)

text \<open>
  The third loop. After the edges \<open>pre\<close> have been placed, the cursor of a row stands
  behind the destinations placed in it, and the row holds them in the order of the list.
\<close>

definition llenar_inv :: "(int \<times> int) list \<Rightarrow> nat \<Rightarrow> (int \<times> int) list \<Rightarrow> int list \<Rightarrow> int list \<Rightarrow> bool" where
  "llenar_inv as n pre cp ci \<longleftrightarrow>
     length cp = n \<and> length ci = length as \<and>
     (\<forall>u. 0 \<le> u \<and> u < int n \<longrightarrow> cp ! nat u = inicio_fila as u + cuenta_origen pre u) \<and>
     (\<forall>u k. 0 \<le> u \<and> u < int n \<and> k < length (destinos pre u) \<longrightarrow>
        ci ! (nat (inicio_fila as u) + k) = destinos pre u ! k)"

lemma llenar_ok:
  assumes "as = pre @ post" "\<forall>e\<in>set as. 0 \<le> fst e \<and> fst e < int n" "llenar_inv as n pre cp ci"
  shows "\<exists>cp' ci'. llenar post (cp, ci) = Some (cp', ci') \<and> llenar_inv as n as cp' ci' \<and>
           set ci' \<subseteq> set ci \<union> snd ` set post"
  using assms
proof (induction post arbitrary: pre cp ci)
  case Nil
  then show ?case by simp
next
  case (Cons e post)
  obtain u v where e: "e = (u, v)" by (cases e)
  from Cons.prems(1,2) e have u: "0 \<le> u" "u < int n" by auto
  from Cons.prems(3) have len: "length cp = n" "length ci = length as"
    and cpv: "\<And>w. 0 \<le> w \<Longrightarrow> w < int n \<Longrightarrow> cp ! nat w = inicio_fila as w + cuenta_origen pre w"
    and civ: "\<And>w k. 0 \<le> w \<Longrightarrow> w < int n \<Longrightarrow> k < length (destinos pre w) \<Longrightarrow>
        ci ! (nat (inicio_fila as w) + k) = destinos pre w ! k"
    by (auto simp: llenar_inv_def)
  define pos where "pos = cp ! nat u"
  have pos: "pos = inicio_fila as u + cuenta_origen pre u" unfolding pos_def using cpv u by simp
  have cu: "cuenta_origen as u = cuenta_origen pre u + 1 + cuenta_origen post u"
    using Cons.prems(1) e by (simp add: cuenta_origen_def)
  have "0 \<le> cuenta_origen pre u" "0 \<le> cuenta_origen post u" by (simp_all add: cuenta_origen_def)
  with cu pos have "pos < inicio_fila as u + cuenta_origen as u" by simp
  also have "\<dots> = inicio_fila as (u + 1)" by (simp add: inicio_fila_suc)
  finally have pos_lt: "pos < inicio_fila as (u + 1)" .
  with inicio_fila_cota [of as "u + 1"] have pos_E: "pos < int (length as)" by simp
  have pos0: "0 \<le> pos" using pos inicio_fila_no_neg [of as u] by (simp add: cuenta_origen_def)
  have npos: "nat pos = nat (inicio_fila as u) + length (destinos pre u)"
    using pos inicio_fila_no_neg [of as u] length_destinos [of pre u] by (simp add: nat_add_distrib)
  define cp1 where "cp1 = cp[nat u := pos + 1]"
  define ci1 where "ci1 = ci[nat pos := v]"
  have step: "llenar (e # post) (cp, ci) = llenar post (cp1, ci1)"
    using u len pos0 pos_E
    by (simp add: e leer_def escribir_def cp1_def ci1_def pos_def)
  let ?pre = "pre @ [e]"
  have inv1: "llenar_inv as n ?pre cp1 ci1"
    unfolding llenar_inv_def
  proof (intro conjI allI impI)
    show "length cp1 = n" by (simp add: cp1_def len)
    show "length ci1 = length as" by (simp add: ci1_def len)
  next
    fix w assume w: "0 \<le> w \<and> w < int n"
    show "cp1 ! nat w = inicio_fila as w + cuenta_origen ?pre w"
    proof (cases "w = u")
      case True
      then show ?thesis using u len pos by (simp add: cp1_def cuenta_origen_def e)
    next
      case False
      with w u have "nat w \<noteq> nat u" by auto
      with False w show ?thesis using cpv [of w] by (simp add: cp1_def cuenta_origen_def e)
    qed
  next
    fix w k assume wk: "0 \<le> w \<and> w < int n \<and> k < length (destinos ?pre w)"
    show "ci1 ! (nat (inicio_fila as w) + k) = destinos ?pre w ! k"
    proof (cases "w = u")
      case True
      have d: "destinos ?pre u = destinos pre u @ [v]" by (simp add: destinos_def e)
      show ?thesis
      proof (cases "k = length (destinos pre u)")
        case k: True
        with True npos d pos_E pos0 len show ?thesis by (simp add: ci1_def)
      next
        case False
        with wk True d have k: "k < length (destinos pre u)" by simp
        with npos have "nat (inicio_fila as u) + k \<noteq> nat pos" by simp
        with civ [OF u k] True d k show ?thesis by (simp add: ci1_def nth_append)
      qed
    next
      case False
      then have d: "destinos ?pre w = destinos pre w" by (simp add: destinos_def e)
      with wk have k: "k < length (destinos pre w)" by simp
      have "cuenta_origen pre w \<le> cuenta_origen as w"
        using Cons.prems(1) by (simp add: cuenta_origen_def)
      with k length_destinos [of pre w]
      have hi: "inicio_fila as w + int k < inicio_fila as (w + 1)"
        by (simp add: inicio_fila_suc)
      have "inicio_fila as w + int k \<noteq> pos"
      proof (cases "w < u")
        case True
        then have "inicio_fila as (w + 1) \<le> inicio_fila as u" by (intro inicio_fila_mono) simp
        with hi pos show ?thesis by (simp add: cuenta_origen_def)
      next
        case False
        with \<open>w \<noteq> u\<close> have "inicio_fila as (u + 1) \<le> inicio_fila as w"
          by (intro inicio_fila_mono) simp
        with pos_lt show ?thesis by simp
      qed
      then have "nat (inicio_fila as w) + k \<noteq> nat pos"
        using inicio_fila_no_neg [of as w] pos0 by linarith
      with civ [of w k] wk k d show ?thesis by (simp add: ci1_def)
    qed
  qed
  have "as = ?pre @ post" using Cons.prems(1) by simp
  from Cons.IH [OF this Cons.prems(2) inv1] obtain cp' ci' where
    r: "llenar post (cp1, ci1) = Some (cp', ci')" "llenar_inv as n as cp' ci'"
       "set ci' \<subseteq> set ci1 \<union> snd ` set post" by blast
  have "set ci1 \<subseteq> insert v (set ci)" unfolding ci1_def by (rule set_update_subset_insert)
  with r(3) have "set ci' \<subseteq> set ci \<union> snd ` set (e # post)" by (auto simp: e)
  with r(1,2) step show ?case by auto
qed


text \<open>The fourth loop sorts the rows one after the other and leaves the others alone.
  \<open>trozo xs a b\<close> is the part of \<open>xs\<close> from index \<open>a\<close> up to \<open>b\<close>.\<close>

definition trozo :: "'a list \<Rightarrow> nat \<Rightarrow> nat \<Rightarrow> 'a list" where
  "trozo xs a b = take (b - a) (drop a xs)"

lemma trozo_reemplazo_mismo:
  assumes "a \<le> b" "b \<le> length xs" "length ys = b - a"
  shows "trozo (take a xs @ ys @ drop b xs) a b = ys"
  using assms by (simp add: trozo_def)

lemma trozo_reemplazo_antes:
  assumes "a \<le> b" "b \<le> length xs" "length ys = b - a" "b' \<le> a"
  shows "trozo (take a xs @ ys @ drop b xs) a' b' = trozo xs a' b'"
proof (cases "a' < b'")
  case False
  then show ?thesis by (simp add: trozo_def)
next
  case True
  with assms have "drop a' (take a xs @ ys @ drop b xs) = drop a' (take a xs) @ ys @ drop b xs"
    by simp
  moreover have "length (drop a' (take a xs)) = a - a'" using assms by simp
  moreover have "take (b' - a') (drop a' (take a xs)) = take (b' - a') (drop a' xs)"
    using assms True by (simp add: drop_take min_def)
  ultimately show ?thesis using assms True by (simp add: trozo_def)
qed

lemma trozo_reemplazo_despues:
  assumes "a \<le> b" "b \<le> length xs" "length ys = b - a" "b \<le> a'"
  shows "trozo (take a xs @ ys @ drop b xs) a' b' = trozo xs a' b'"
  using assms by (simp add: trozo_def)

lemma ordenar_filas_ok:
  assumes mono: "\<And>j k. j \<le> k \<Longrightarrow> ini j \<le> ini k"
    and rp: "length rp = Suc n" "\<And>j. j \<le> n \<Longrightarrow> rp ! j = int (ini j)"
  shows "i \<le> n \<Longrightarrow> ini n \<le> length ci \<Longrightarrow>
    \<exists>ci'. ordenar_filas (int i) (int n) rp ci = Some ci' \<and> length ci' = length ci \<and>
      set ci' = set ci \<and>
      (\<forall>u. i \<le> u \<and> u < n \<longrightarrow> trozo ci' (ini u) (ini (Suc u)) = sort (trozo ci (ini u) (ini (Suc u)))) \<and>
      (\<forall>u<i. trozo ci' (ini u) (ini (Suc u)) = trozo ci (ini u) (ini (Suc u)))"
proof (induction "n - i" arbitrary: i ci)
  case 0
  then have "i = n" by simp
  then have "ordenar_filas (int i) (int n) rp ci = Some ci" by (subst ordenar_filas.simps) simp
  with \<open>i = n\<close> show ?case by auto
next
  case (Suc k)
  then have i: "i < n" by simp
  define a where "a = ini i"
  define b where "b = ini (Suc i)"
  have ab: "a \<le> b" unfolding a_def b_def by (rule mono) simp
  have "b \<le> ini n" unfolding b_def using i by (intro mono) simp
  with Suc.prems(2) have bl: "b \<le> length ci" by simp
  define ys where "ys = sort (trozo ci a b)"
  have lys: "length ys = b - a" using ab bl by (simp add: ys_def trozo_def)
  define ci1 where "ci1 = take a ci @ ys @ drop b ci"
  have l1: "length ci1 = length ci" using ab bl lys by (simp add: ci1_def)
  have "set (trozo ci a b) \<union> set (take a ci) \<union> set (drop b ci) = set ci"
  proof -
    have "ci = take a ci @ trozo ci a b @ drop b ci"
      using ab bl by (simp add: trozo_def take_add [symmetric] del: take_add)
         (metis add_diff_inverse_nat append_take_drop_id drop_drop not_less add.commute)
    then have "set ci = set (take a ci @ trozo ci a b @ drop b ci)" by simp
    then show ?thesis by auto
  qed
  then have s1: "set ci1 = set ci" by (auto simp: ci1_def ys_def)
  have la: "leer rp (int i) = Some (int a)" using rp i by (simp add: leer_def a_def)
  have lb: "leer rp (int i + 1) = Some (int b)"
    using rp(1) rp(2) [of "Suc i"] i by (simp add: leer_def b_def nat_add_distrib)
  have so: "ordenar_rango ci (int a) (int b) = Some ci1"
    using ab bl by (simp add: ordenar_rango_def ci1_def ys_def trozo_def nat_diff_distrib')
  have step: "ordenar_filas (int i) (int n) rp ci = ordenar_filas (int (Suc i)) (int n) rp ci1"
    using i la lb so by (subst ordenar_filas.simps) (simp add: add.commute)
  have "k = n - Suc i" using Suc.hyps(2) by simp
  from Suc.hyps(1) [OF this, of ci1] i Suc.prems(2) l1 obtain ci' where
    r: "ordenar_filas (int (Suc i)) (int n) rp ci1 = Some ci'" "length ci' = length ci1"
       "set ci' = set ci1"
       "\<forall>u. Suc i \<le> u \<and> u < n \<longrightarrow> trozo ci' (ini u) (ini (Suc u)) = sort (trozo ci1 (ini u) (ini (Suc u)))"
       "\<forall>u<Suc i. trozo ci' (ini u) (ini (Suc u)) = trozo ci1 (ini u) (ini (Suc u))"
    by auto
  have despues: "\<forall>u. i \<le> u \<and> u < n \<longrightarrow> trozo ci' (ini u) (ini (Suc u)) = sort (trozo ci (ini u) (ini (Suc u)))"
  proof (intro allI impI)
    fix u assume u: "i \<le> u \<and> u < n"
    show "trozo ci' (ini u) (ini (Suc u)) = sort (trozo ci (ini u) (ini (Suc u)))"
    proof (cases "u = i")
      case True
      with r(5) have "trozo ci' (ini u) (ini (Suc u)) = trozo ci1 a b" by (simp add: a_def b_def)
      also have "\<dots> = ys" unfolding ci1_def using ab bl lys by (rule trozo_reemplazo_mismo)
      finally show ?thesis using True by (simp add: ys_def a_def b_def)
    next
      case False
      with u have su: "Suc i \<le> u" by simp
      then have "b \<le> ini u" unfolding b_def by (rule mono)
      then have "trozo ci1 (ini u) (ini (Suc u)) = trozo ci (ini u) (ini (Suc u))"
        unfolding ci1_def using ab bl lys by (intro trozo_reemplazo_despues)
      with r(4) su u show ?thesis by simp
    qed
  qed
  have antes: "\<forall>u<i. trozo ci' (ini u) (ini (Suc u)) = trozo ci (ini u) (ini (Suc u))"
  proof (intro allI impI)
    fix u assume u: "u < i"
    then have "ini (Suc u) \<le> a" unfolding a_def by (intro mono) simp
    then have "trozo ci1 (ini u) (ini (Suc u)) = trozo ci (ini u) (ini (Suc u))"
      unfolding ci1_def using ab bl lys by (intro trozo_reemplazo_antes)
    with r(5) u show "trozo ci' (ini u) (ini (Suc u)) = trozo ci (ini u) (ini (Suc u))" by simp
  qed
  from step r(1,2,3) l1 s1 despues antes show ?case by simp
qed


lemma trozo_llenado:
  assumes "llenar_inv as n as cp ci" "0 \<le> u" "u < int n"
  shows "trozo ci (nat (inicio_fila as u)) (nat (inicio_fila as (u + 1))) = destinos as u"
proof (rule nth_equalityI)
  have d: "nat (inicio_fila as (u + 1)) - nat (inicio_fila as u) = length (destinos as u)"
    using inicio_fila_no_neg [of as u] length_destinos [of as u]
    by (simp add: inicio_fila_suc nat_add_distrib)
  have b: "nat (inicio_fila as (u + 1)) \<le> length ci"
    using assms(1) inicio_fila_cota [of as "u + 1"] by (simp add: llenar_inv_def)
  with d show l: "length (trozo ci (nat (inicio_fila as u)) (nat (inicio_fila as (u + 1))))
      = length (destinos as u)"
    by (simp add: trozo_def)
  fix k assume "k < length (trozo ci (nat (inicio_fila as u)) (nat (inicio_fila as (u + 1))))"
  with l have k: "k < length (destinos as u)" by simp
  with assms have "ci ! (nat (inicio_fila as u) + k) = destinos as u ! k"
    by (simp add: llenar_inv_def)
  moreover have "nat (inicio_fila as u) \<le> length ci" using b d k by linarith
  ultimately show "trozo ci (nat (inicio_fila as u)) (nat (inicio_fila as (u + 1))) ! k
      = destinos as u ! k"
    using k d by (simp add: trozo_def)
qed

text \<open>The four loops together, on the object that the constructor leaves.\<close>

lemma construirCSR_nuevo:
  assumes ids: "\<forall>e\<in>set as. 0 \<le> fst e \<and> fst e \<le> maxNodo \<and> 0 \<le> snd e \<and> snd e \<le> maxNodo"
    and m0: "- 1 \<le> maxNodo" and m1: "maxNodo + 2 \<le> INT_MAX"
    and len: "int (length as) \<le> INT_MAX"
  shows "\<exists>g. construirCSR as maxNodo grafo_nuevo = Some g \<and>
    numNodos g = maxNodo + 1 \<and> numAristas g = int (length as) \<and>
    row_ptr g = map (\<lambda>j. inicio_fila as (int j)) [0..<Suc (nat (maxNodo + 1))] \<and>
    gradoEntrada g = map (\<lambda>j. cuenta_destino as (int j)) [0..<nat (maxNodo + 1)] \<and>
    valores g = replicate (length as) 1 \<and>
    length (column_indices g) = length as \<and>
    set (column_indices g) \<subseteq> insert 0 (snd ` set as) \<and>
    (\<forall>u. 0 \<le> u \<and> u \<le> maxNodo \<longrightarrow>
       trozo (column_indices g) (nat (inicio_fila as u)) (nat (inicio_fila as (u + 1)))
         = sort (destinos as u))"
proof -
  define n where "n = nat (maxNodo + 1)"
  have nn: "int n = maxNodo + 1" using m0 by (simp add: n_def)
  define rp1 where "rp1 = map (\<lambda>j. cuenta_origen as (int j - 1)) [0..<Suc n]"
  define ge1 where "ge1 = map (\<lambda>j. cuenta_destino as (int j)) [0..<n]"
  define rp2 where "rp2 = map (\<lambda>j. inicio_fila as (int j)) [0..<Suc n]"
  define ini where "ini = (\<lambda>j. nat (inicio_fila as (int j)))"
  have s1: "suma_int maxNodo 1 = Some (int n)"
    using m0 m1 nn by (simp add: suma_int_def INT_MAX_def INT_MIN_def)
  have s2: "suma_int (int n) 1 = Some (int (Suc n))"
    using m0 m1 nn by (simp add: suma_int_def INT_MAX_def INT_MIN_def)
  have na: "size_a_int (length as) = int (length as)"
    using len by (simp add: size_a_int_def INT_MAX_def)
  have r1: "resize [] (int (Suc n)) (0::int) = Some (replicate (Suc n) 0)"
    by (simp add: resize_def del: replicate_Suc)
  have r2: "resize [] (int n) (0::int) = Some (replicate n 0)" by (simp add: resize_def)
  have r3: "resize [] (int (length as)) (0::int) = Some (replicate (length as) 0)"
    by (simp add: resize_def)
  have r4: "resize [] (int (length as)) (1::int) = Some (replicate (length as) 1)"
    by (simp add: resize_def)
  have c: "contar_grados as (replicate (Suc n) 0, replicate n 0) = Some (rp1, ge1)"
  proof -
    have "\<forall>(u, v)\<in>set as. 0 \<le> u \<and> u + 1 < int (length (replicate (Suc n) (0::int))) \<and>
        0 \<le> v \<and> v < int (length (replicate n (0::int)))"
      using ids nn by auto
    from contar_grados_ok [OF this] show ?thesis
      by (simp add: rp1_def ge1_def del: upt_Suc replicate_Suc cong: map_cong)
  qed
  have ac: "acumular 1 (int n) rp1 = Some rp2"
  proof -
    have l: "length rp1 = Suc n" by (simp add: rp1_def)
    have z: "\<forall>j<1. rp1 ! j = sum_list (take (Suc j) rp1)"
      by (simp add: rp1_def take_Suc_conv_app_nth del: upt_Suc)
    from acumular_ok [OF l l, of 1] z
    have "acumular (int 1) (int n) rp1 = Some (map (\<lambda>j. sum_list (take (Suc j) rp1)) [0..<Suc n])"
      by simp
    moreover have "map (\<lambda>j. sum_list (take (Suc j) rp1)) [0..<Suc n] = rp2"
      unfolding rp2_def
    proof (rule map_cong [OF refl])
      fix j assume "j \<in> set [0..<Suc n]"
      then have j: "j \<le> n" by auto
      then have "take (Suc j) rp1 = map (\<lambda>j. cuenta_origen as (int j - 1)) [0..<Suc j]"
        unfolding rp1_def take_map by (simp add: take_upt del: upt_Suc)
      then show "sum_list (take (Suc j) rp1) = inicio_fila as (int j)"
        using suma_cuentas [of as j] ids by simp
    qed
    ultimately show ?thesis by simp
  qed
  have ne: "rp2 \<noteq> []" by (simp add: rp2_def)
  have bl: "butlast rp2 = map (\<lambda>j. inicio_fila as (int j)) [0..<n]"
    by (simp add: rp2_def)
  have oid: "\<forall>e\<in>set as. 0 \<le> fst e \<and> fst e < int n" using ids nn by auto
  have "\<forall>u. 0 \<le> u \<and> u < int n \<longrightarrow>
      map (\<lambda>j. inicio_fila as (int j)) [0..<n] ! nat u = inicio_fila as u"
  proof (intro allI impI)
    fix u assume "0 \<le> u \<and> u < int n"
    then have "nat u < n" "int (nat u) = u" by auto
    then show "map (\<lambda>j. inicio_fila as (int j)) [0..<n] ! nat u = inicio_fila as u" by simp
  qed
  then have "llenar_inv as n [] (butlast rp2) (replicate (length as) 0)"
    by (simp add: llenar_inv_def bl destinos_def cuenta_origen_def)
  from llenar_ok [OF _ oid this, of as] obtain cp ci1 where
    ll: "llenar as (butlast rp2, replicate (length as) 0) = Some (cp, ci1)"
        "llenar_inv as n as cp ci1" "set ci1 \<subseteq> set (replicate (length as) (0::int)) \<union> snd ` set as"
    by auto
  have mono: "\<And>j k. j \<le> k \<Longrightarrow> ini j \<le> ini k"
    unfolding ini_def using inicio_fila_mono [of _ _ as] by (simp add: nat_mono)
  have rpl: "length rp2 = Suc n" by (simp add: rp2_def)
  have rpv: "\<And>j. j \<le> n \<Longrightarrow> rp2 ! j = int (ini j)"
    unfolding rp2_def ini_def using inicio_fila_no_neg [of as]
    by (simp del: upt_Suc)
  have "ini n \<le> length ci1"
    using ll(2) inicio_fila_cota [of as "int n"] by (simp add: ini_def llenar_inv_def)
  from ordenar_filas_ok [of ini rp2 n 0 ci1, OF mono rpl rpv _ this] obtain ci2 where
    so: "ordenar_filas 0 (int n) rp2 ci1 = Some ci2" "length ci2 = length ci1" "set ci2 = set ci1"
        "\<forall>u. u < n \<longrightarrow> trozo ci2 (ini u) (ini (Suc u)) = sort (trozo ci1 (ini u) (ini (Suc u)))"
    by auto
  define g where "g = \<lparr>row_ptr = rp2, column_indices = ci2, valores = replicate (length as) 1,
       numNodos = int n, numAristas = int (length as), gradoEntrada = ge1\<rparr>"
  have "construirCSR as maxNodo grafo_nuevo = Some g"
    unfolding construirCSR_def grafo_nuevo_def
    using s1 s2 na r1 r2 r3 r4 c ac ne ll(1) so(1)
    by (simp add: g_def del: replicate_Suc upt_Suc)
  moreover have "\<forall>u. 0 \<le> u \<and> u \<le> maxNodo \<longrightarrow>
       trozo ci2 (nat (inicio_fila as u)) (nat (inicio_fila as (u + 1))) = sort (destinos as u)"
  proof (intro allI impI)
    fix u assume u: "0 \<le> u \<and> u \<le> maxNodo"
    then have un: "nat u < n" "u < int n" using nn by auto
    from so(4) un(1) have "trozo ci2 (ini (nat u)) (ini (Suc (nat u)))
        = sort (trozo ci1 (ini (nat u)) (ini (Suc (nat u))))" by simp
    moreover have "ini (nat u) = nat (inicio_fila as u)" "ini (Suc (nat u)) = nat (inicio_fila as (u + 1))"
      using u by (simp_all add: ini_def add.commute)
    ultimately show "trozo ci2 (nat (inicio_fila as u)) (nat (inicio_fila as (u + 1))) = sort (destinos as u)"
      using trozo_llenado [OF ll(2) _ un(2)] u by simp
  qed
  moreover have "set ci2 \<subseteq> insert 0 (snd ` set as)" using so(3) ll(3) by auto
  moreover have "length ci2 = length as" using so(2) ll(2) by (simp add: llenar_inv_def)
  ultimately show ?thesis
    using nn by (intro exI [of _ g]) (simp add: g_def rp2_def ge1_def n_def)
qed


lemma suma_indicador:
  "sum_list (map (\<lambda>j. if v = int j then 1 else 0) [0..<n]) = (if 0 \<le> v \<and> v < int n then (1::int) else 0)"
  by (induction n) auto

lemma suma_destinos:
  assumes "\<forall>e\<in>set as. 0 \<le> snd e \<and> snd e < int n"
  shows "sum_list (map (\<lambda>j. cuenta_destino as (int j)) [0..<n]) = int (length as)"
  using assms
proof (induction as)
  case Nil
  then show ?case by (simp add: cuenta_destino_def)
next
  case (Cons e as)
  have "(\<lambda>j. cuenta_destino (e # as) (int j))
      = (\<lambda>j. (if snd e = int j then 1 else 0) + cuenta_destino as (int j))"
    by (auto simp: cuenta_destino_def)
  then have "sum_list (map (\<lambda>j. cuenta_destino (e # as) (int j)) [0..<n])
      = sum_list (map (\<lambda>j. if snd e = int j then 1 else 0) [0..<n])
        + sum_list (map (\<lambda>j. cuenta_destino as (int j)) [0..<n])"
    by (simp add: sum_list_addf)
  with Cons show ?case by (simp add: suma_indicador)
qed

lemma inicio_fila_0:
  assumes "\<forall>e\<in>set as. 0 \<le> fst e"
  shows "inicio_fila as 0 = 0"
  using assms by (simp add: inicio_fila_def filter_empty_conv not_less)

lemma inicio_fila_total:
  assumes "\<forall>e\<in>set as. fst e < u"
  shows "inicio_fila as u = int (length as)"
  using assms by (simp add: inicio_fila_def)

lemma rango_trozo:
  assumes "0 \<le> a" "a \<le> b" "b \<le> int (length xs)"
  shows "rango xs a b = Some (trozo xs (nat a) (nat b))"
  using assms by (auto simp: rango_def trozo_def nat_diff_distrib')

text \<open>
  For an edge list with node ids in \<open>[0, maxNodo]\<close>, \<open>construirCSR\<close> on a new object
  returns, and the object then satisfies the invariants of the CSR representation: the
  lengths of the vectors, \<open>row_ptr\<close> non-decreasing from 0 to the number of edges, the
  in-degrees summing to the number of edges, and every row the ascending list of the
  destinations of its node. Such an object is well-formed with ascending rows, which is what
  the theorems on the queries assume.
\<close>

lemma construirCSR_nuevo_invariantes:
  assumes ids: "\<forall>e\<in>set as. 0 \<le> fst e \<and> fst e \<le> maxNodo \<and> 0 \<le> snd e \<and> snd e \<le> maxNodo"
    and m0: "- 1 \<le> maxNodo" and m1: "maxNodo + 2 \<le> INT_MAX"
    and len: "int (length as) \<le> INT_MAX"
  shows "\<exists>g. construirCSR as maxNodo grafo_nuevo = Some g \<and>
    numNodos g = maxNodo + 1 \<and> numAristas g = int (length as) \<and>
    length (row_ptr g) = nat (numNodos g) + 1 \<and> sorted (row_ptr g) \<and>
    hd (row_ptr g) = 0 \<and> last (row_ptr g) = numAristas g \<and>
    length (column_indices g) = length as \<and> valores g = replicate (length as) 1 \<and>
    sum_list (gradoEntrada g) = numAristas g \<and>
    (\<forall>u. nodo_valido g u \<longrightarrow>
       fila g u = Some (sort (destinos as u)) \<and> getVecinos g u = Some (sort (destinos as u)) \<and>
       obtenerGrado g u = Some (cuenta_origen as u) \<and>
       obtenerGradoEntrada g u = Some (cuenta_destino as u)) \<and>
    csr_ok g \<and> filas_ordenadas g"
proof -
  define n where "n = nat (maxNodo + 1)"
  have nn: "int n = maxNodo + 1" using m0 by (simp add: n_def)
  let ?f = "\<lambda>j. inicio_fila as (int j)"
  from construirCSR_nuevo [OF assms] obtain g where
    g: "construirCSR as maxNodo grafo_nuevo = Some g"
       "numNodos g = maxNodo + 1" "numAristas g = int (length as)"
       "row_ptr g = map ?f [0..<Suc n]"
       "gradoEntrada g = map (\<lambda>j. cuenta_destino as (int j)) [0..<n]"
       "valores g = replicate (length as) 1"
       "length (column_indices g) = length as"
       "set (column_indices g) \<subseteq> insert 0 (snd ` set as)"
    and tr: "\<And>u. 0 \<le> u \<Longrightarrow> u \<le> maxNodo \<Longrightarrow>
       trozo (column_indices g) (nat (inicio_fila as u)) (nat (inicio_fila as (u + 1)))
         = sort (destinos as u)"
    unfolding n_def by blast
  have rl: "length (row_ptr g) = Suc n" by (simp add: g(4))
  have rn: "\<And>j. j \<le> n \<Longrightarrow> row_ptr g ! j = ?f j"
    unfolding g(4) by (simp del: upt_Suc)
  have srt: "sorted (row_ptr g)"
    unfolding sorted_iff_nth_mono
  proof (intro allI impI)
    fix i j assume "i \<le> j" "j < length (row_ptr g)"
    then show "row_ptr g ! i \<le> row_ptr g ! j" using rl rn by (simp add: inicio_fila_mono)
  qed
  have rne: "row_ptr g \<noteq> []" using rl by auto
  have h: "hd (row_ptr g) = 0"
    using rn [of 0] inicio_fila_0 [of as] ids by (simp add: hd_conv_nth [OF rne])
  have "last (row_ptr g) = ?f n" using rn [of n] rl by (simp add: last_conv_nth [OF rne])
  also have "\<dots> = int (length as)" using ids nn by (intro inicio_fila_total) auto
  finally have l: "last (row_ptr g) = numAristas g" using g(3) by simp
  have sg: "sum_list (gradoEntrada g) = numAristas g"
    unfolding g(5) g(3) using ids nn by (intro suma_destinos) auto
  have filas: "\<forall>u. nodo_valido g u \<longrightarrow>
       fila g u = Some (sort (destinos as u)) \<and> getVecinos g u = Some (sort (destinos as u)) \<and>
       obtenerGrado g u = Some (cuenta_origen as u) \<and>
       obtenerGradoEntrada g u = Some (cuenta_destino as u)"
  proof (intro allI impI)
    fix u assume "nodo_valido g u"
    then have u: "0 \<le> u" "u \<le> maxNodo" "u < numNodos g" by (simp_all add: nodo_valido_def g(2))
    then have un: "nat u < n" "nat (u + 1) \<le> n" "int (nat u) = u" "int (nat (u + 1)) = u + 1"
      using nn by auto
    have b1: "u < int (length (row_ptr g))" "u + 1 < int (length (row_ptr g))"
      using u(2) nn rl by simp_all
    have v1: "row_ptr g ! nat u = inicio_fila as u" using rn [of "nat u"] un(1,3) by simp
    have v2: "row_ptr g ! nat (u + 1) = inicio_fila as (u + 1)"
      using rn [of "nat (u + 1)"] un(2,4) by simp
    have la: "leer (row_ptr g) u = Some (inicio_fila as u)"
      using u(1) b1(1) v1 by (simp add: leer_def)
    have lb: "leer (row_ptr g) (u + 1) = Some (inicio_fila as (u + 1))"
      using u(1) b1(2) v2 by (simp add: leer_def)
    have "rango (column_indices g) (inicio_fila as u) (inicio_fila as (u + 1))
        = Some (trozo (column_indices g) (nat (inicio_fila as u)) (nat (inicio_fila as (u + 1))))"
      using inicio_fila_no_neg [of as u] inicio_fila_mono [of u "u + 1" as]
        inicio_fila_cota [of as "u + 1"] g(7)
      by (intro rango_trozo) simp_all
    with tr [OF u(1,2)] have r: "rango (column_indices g) (inicio_fila as u) (inicio_fila as (u + 1))
        = Some (sort (destinos as u))" by simp
    have "fila g u = Some (sort (destinos as u))" using la lb r by (simp add: fila_def)
    moreover have "getVecinos g u = Some (sort (destinos as u))"
      using la lb r u inicio_fila_mono [of u "u + 1" as] by (simp add: getVecinos_def)
    moreover have "obtenerGrado g u = Some (cuenta_origen as u)"
      using la lb u by (simp add: obtenerGrado_def inicio_fila_suc)
    moreover have "obtenerGradoEntrada g u = Some (cuenta_destino as u)"
    proof -
      have "gradoEntrada g ! nat u = cuenta_destino as u" using un(1,3) by (simp add: g(5))
      moreover have "u < int (length (gradoEntrada g))" using u(2) nn by (simp add: g(5))
      ultimately show ?thesis using u(1,3) by (simp add: obtenerGradoEntrada_def leer_def)
    qed
    ultimately show "fila g u = Some (sort (destinos as u)) \<and>
       getVecinos g u = Some (sort (destinos as u)) \<and>
       obtenerGrado g u = Some (cuenta_origen as u) \<and>
       obtenerGradoEntrada g u = Some (cuenta_destino as u)" by simp
  qed
  have val: "list_all (\<lambda>v. 0 \<le> v \<and> v < numNodos g) (column_indices g)"
  proof (cases "as = []")
    case True
    with g(7) show ?thesis by simp
  next
    case False
    then obtain e where "e \<in> set as" by (cases as) auto
    with ids have "0 \<le> maxNodo" by force
    with g(8) ids show ?thesis unfolding list_all_iff g(2) by force
  qed
  have ok: "csr_ok g"
    unfolding csr_ok_def using srt h l g(2,3,7) rl nn m0 val by simp
  have fo: "filas_ordenadas g"
    unfolding filas_ordenadas_def list_all_iff
  proof
    fix u assume "u \<in> set [0..numNodos g - 1]"
    then have "nodo_valido g u" by (simp add: nodo_valido_def)
    with filas have "vecinos_de g u = sort (destinos as u)" by (simp add: vecinos_de_def)
    then show "sorted (vecinos_de g u)" by simp
  qed
  show ?thesis
    using g(1,2,3,6,7) rl nn srt h l sg filas ok fo by (intro exI [of _ g]) simp
qed

text \<open>The edges of the object are then the edges of the list.\<close>

lemma arista_cargada:
  assumes "\<forall>e\<in>set as. 0 \<le> fst e \<and> fst e \<le> maxNodo \<and> 0 \<le> snd e \<and> snd e \<le> maxNodo"
    and "- 1 \<le> maxNodo" and "maxNodo + 2 \<le> INT_MAX" and "int (length as) \<le> INT_MAX"
    and "construirCSR as maxNodo grafo_nuevo = Some g"
  shows "arista g u v \<longleftrightarrow> (u, v) \<in> set as"
proof -
  from construirCSR_nuevo_invariantes [OF assms(1-4)] assms(5)
  have n: "numNodos g = maxNodo + 1"
    and f: "\<And>w. nodo_valido g w \<Longrightarrow> getVecinos g w = Some (sort (destinos as w))"
    by auto
  show ?thesis
  proof (cases "nodo_valido g u")
    case True
    from f [OF True] have "arista g u v \<longleftrightarrow> v \<in> set (destinos as u)"
      by (simp add: arista_def vecinos_de_def)
    then show ?thesis by (force simp: destinos_def)
  next
    case False
    then have "\<not> arista g u v" by (simp add: arista_def vecinos_de_invalido)
    moreover from False assms(1) n have "(u, v) \<notin> set as"
      by (force simp: nodo_valido_def)
    ultimately show ?thesis by simp
  qed
qed

text \<open>
  Claim C3 states these invariants after every successful construction. A construction on
  an object that was loaded before breaks the last one: \<open>gradoEntrada.resize(numNodos, 0)\<close>
  keeps the in-degrees of the previous graph, and the new ones are added to them. After
  the edge list \<open>(2, 0)\<close> with \<open>maxNodo = 2\<close> and then the edge list \<open>(0, 1)\<close> with
  \<open>maxNodo = 1\<close>, both constructions succeed, \<open>numAristas\<close> is 1 and the entries of
  \<open>gradoEntrada\<close> sum to 2.
\<close>

theorem segunda_construccion_grados:
  "construirCSR [(2, 0)] 2 grafo_nuevo = Some grafo_primera \<and>
   construirCSR [(0, 1)] 1 grafo_primera = Some grafo_recargado \<and>
   sum_list (gradoEntrada grafo_recargado) = 2 \<and> numAristas grafo_recargado = 1"
  by code_simp

section \<open>Reading the lines of the file\<close>

text \<open>What one line contributes to \<open>aristas\<close>: the body of the reading loop for a single
  line. \<open>max_ids\<close> is the running maximum that the loop keeps in \<open>maxNodo\<close>.\<close>

definition arista_de_linea :: "string \<Rightarrow> (int \<times> int) option" where
  "arista_de_linea linea =
     (if linea = [] \<or> hd linea = CHR ''#'' then None
      else (case extraer_int linea of
              None \<Rightarrow> None
            | Some (origen, r) \<Rightarrow>
               (case extraer_int r of None \<Rightarrow> None | Some (destino, r') \<Rightarrow> Some (origen, destino))))"

definition max_ids :: "(int \<times> int) list \<Rightarrow> int \<Rightarrow> int" where
  "max_ids es m = fold (\<lambda>e m. max m (max (fst e) (snd e))) es m"

lemma leer_lineas_map_filter:
  "leer_lineas ls (as, m) =
     (as @ List.map_filter arista_de_linea ls, max_ids (List.map_filter arista_de_linea ls) m)"
proof (induction ls arbitrary: as m)
  case Nil
  then show ?case by (simp add: List.map_filter_simps max_ids_def)
next
  case (Cons l ls)
  show ?case
  proof (cases "arista_de_linea l")
    case None
    then have "leer_lineas (l # ls) (as, m) = leer_lineas ls (as, m)"
      by (auto simp: arista_de_linea_def split: if_splits option.splits)
    with None Cons show ?thesis by (simp add: List.map_filter_simps)
  next
    case (Some e)
    obtain u v where e: "e = (u, v)" by (cases e)
    with Some have "leer_lineas (l # ls) (as, m) = leer_lineas ls (as @ [(u, v)], max m (max u v))"
      by (auto simp: arista_de_linea_def split: if_splits option.splits)
    with Some e Cons show ?thesis by (simp add: List.map_filter_simps max_ids_def)
  qed
qed


text \<open>A token that denotes an \<open>int\<close>: an optional sign and a non-empty run of
  decimal digits whose value fits the type.\<close>

definition es_entero :: "string \<Rightarrow> int \<Rightarrow> bool" where
  "es_entero t v \<longleftrightarrow>
     (\<exists>sg ds. t = sg @ ds \<and> (sg = [] \<or> sg = ''-'' \<or> sg = ''+'') \<and> ds \<noteq> [] \<and>
        (\<forall>c\<in>set ds. isdigit c) \<and>
        v = (if sg = ''-'' then - valor_decimal ds else valor_decimal ds) \<and>
        INT_MIN \<le> v \<and> v \<le> INT_MAX)"

lemma digito_no_espacio: "isdigit c \<Longrightarrow> \<not> isspace c"
  by (auto simp: isdigit_def isspace_def)

lemma digito_no_signo: "isdigit c \<Longrightarrow> c \<noteq> CHR ''-'' \<and> c \<noteq> CHR ''+''"
  by (auto simp: isdigit_def)

lemma signo_no_espacio: "\<not> isspace CHR ''-''" "\<not> isspace CHR ''+''"
  by (auto simp: isspace_def)

lemma signo_no_digito: "\<not> isdigit CHR ''-''" "\<not> isdigit CHR ''+''"
  by (auto simp: isdigit_def)

text \<open>An extraction succeeds exactly on white space, then such a token, then a rest that
  does not go on with a digit.\<close>

lemma extraer_int_iff:
  "extraer_int s = Some (v, r) \<longleftrightarrow>
     (\<exists>w t. s = w @ t @ r \<and> (\<forall>c\<in>set w. isspace c) \<and> es_entero t v \<and>
        (r \<noteq> [] \<longrightarrow> \<not> isdigit (hd r)))"
proof
  assume a: "extraer_int s = Some (v, r)"
  define s1 where "s1 = dropWhile isspace s"
  define sg where "sg = (if s1 \<noteq> [] \<and> (hd s1 = CHR ''-'' \<or> hd s1 = CHR ''+'') then [hd s1] else [])"
  define s2 where "s2 = (if s1 \<noteq> [] \<and> (hd s1 = CHR ''-'' \<or> hd s1 = CHR ''+'') then tl s1 else s1)"
  define ds where "ds = takeWhile isdigit s2"
  have s: "s = takeWhile isspace s @ s1" by (simp add: s1_def)
  have s1: "s1 = sg @ s2" by (auto simp: sg_def s2_def)
  have s2: "s2 = ds @ dropWhile isdigit s2" by (simp add: ds_def)
  from a have ne: "ds \<noteq> []" and r: "r = dropWhile isdigit s2"
    and v: "v = (if s1 \<noteq> [] \<and> hd s1 = CHR ''-'' then - valor_decimal ds else valor_decimal ds)"
    and rg: "INT_MIN \<le> v" "v \<le> INT_MAX"
    unfolding extraer_int_def Let_def s1_def [symmetric] s2_def [symmetric] ds_def [symmetric]
    by (auto split: if_splits)
  have neg: "(s1 \<noteq> [] \<and> hd s1 = CHR ''-'') \<longleftrightarrow> sg = ''-''"
    by (auto simp: sg_def)
  have "es_entero (sg @ ds) v"
    unfolding es_entero_def
  proof (intro exI conjI)
    show "sg @ ds = sg @ ds" ..
    show "sg = [] \<or> sg = ''-'' \<or> sg = ''+''" by (auto simp: sg_def)
    show "ds \<noteq> []" by (rule ne)
    show "\<forall>c\<in>set ds. isdigit c" unfolding ds_def by (auto dest: set_takeWhileD)
    show "v = (if sg = ''-'' then - valor_decimal ds else valor_decimal ds)" using v neg by simp
    show "INT_MIN \<le> v" "v \<le> INT_MAX" by (rule rg)+
  qed
  moreover have "s = takeWhile isspace s @ (sg @ ds) @ r" using s s1 s2 r by simp
  moreover have "\<forall>c\<in>set (takeWhile isspace s). isspace c" by (auto dest: set_takeWhileD)
  moreover have "r \<noteq> [] \<longrightarrow> \<not> isdigit (hd r)"
    unfolding r using hd_dropWhile [of isdigit s2] by blast
  ultimately show "\<exists>w t. s = w @ t @ r \<and> (\<forall>c\<in>set w. isspace c) \<and> es_entero t v \<and>
        (r \<noteq> [] \<longrightarrow> \<not> isdigit (hd r))" by blast
next
  assume "\<exists>w t. s = w @ t @ r \<and> (\<forall>c\<in>set w. isspace c) \<and> es_entero t v \<and>
        (r \<noteq> [] \<longrightarrow> \<not> isdigit (hd r))"
  then obtain w t sg ds where s: "s = w @ t @ r" and w: "\<forall>c\<in>set w. isspace c"
    and t: "t = sg @ ds" and sg: "sg = [] \<or> sg = ''-'' \<or> sg = ''+''" and ne: "ds \<noteq> []"
    and dg: "\<forall>c\<in>set ds. isdigit c"
    and v: "v = (if sg = ''-'' then - valor_decimal ds else valor_decimal ds)"
    and rg: "INT_MIN \<le> v" "v \<le> INT_MAX" and r: "r \<noteq> [] \<longrightarrow> \<not> isdigit (hd r)"
    unfolding es_entero_def by blast
  obtain d ds' where ds: "ds = d # ds'" using ne by (cases ds) auto
  with dg have d: "isdigit d" by simp
  have tne: "t \<noteq> []" using t ne by simp
  have "\<not> isspace (hd t)" using t sg ds d digito_no_espacio signo_no_espacio by auto
  then have dw': "dropWhile isspace (t @ r) = t @ r" using tne by (cases t) auto
  have dw: "dropWhile isspace s = t @ r"
    unfolding s using w dw' by (simp add: dropWhile_append2)
  have tk: "takeWhile isdigit (ds @ r) = ds" and dr: "dropWhile isdigit (ds @ r) = r"
    using dg r by (cases r; simp add: takeWhile_append2 dropWhile_append2)+
  from sg show "extraer_int s = Some (v, r)"
  proof (elim disjE)
    assume "sg = []"
    with t ds d digito_no_signo [OF d] have "t @ r = d # ds' @ r" "d \<noteq> CHR ''-''" "d \<noteq> CHR ''+''"
      by auto
    then show ?thesis
      unfolding extraer_int_def Let_def dw using tk dr ds ne v rg \<open>sg = []\<close> by simp
  next
    assume m: "sg = ''-''"
    with t have "t @ r = CHR ''-'' # ds @ r" by simp
    then show ?thesis
      unfolding extraer_int_def Let_def dw using tk dr ne v rg m by simp
  next
    assume p: "sg = ''+''"
    with t have "t @ r = CHR ''+'' # ds @ r" by simp
    then show ?thesis
      unfolding extraer_int_def Let_def dw using tk dr ne v rg p by simp
  qed
qed

text \<open>
  Claim C7 says that a line contributes an edge if and only if it contains exactly two
  integers separated by white space. The code reads two integers from the front of the
  line and does not look at what follows them: the line \<open>1 2 3\<close> contributes the edge
  \<open>(1, 2)\<close>.

  Claim C7 as amended. The reading loop never stops early: its result is the edges of the
  lines that contribute one, in the order of the lines, together with the largest id seen.
  A line contributes the edge \<open>(u, v)\<close> if and only if it is not empty, does not start
  with \<open>#\<close>, and begins with optional white space, an integer token for \<open>u\<close>, optional
  white space and an integer token for \<open>v\<close> (which must start with a sign when no white
  space separates it from the first), followed by a rest that does not begin with a digit
  and is otherwise arbitrary. Every other line is skipped.
\<close>

theorem linea_aporta_arista:
  "leer_lineas ls (as, m) =
     (as @ List.map_filter arista_de_linea ls, max_ids (List.map_filter arista_de_linea ls) m) \<and>
   (arista_de_linea l = Some (u, v) \<longleftrightarrow>
      l \<noteq> [] \<and> hd l \<noteq> CHR ''#'' \<and>
      (\<exists>w1 t1 w2 t2 r. l = w1 @ t1 @ w2 @ t2 @ r \<and>
         (\<forall>c\<in>set w1. isspace c) \<and> es_entero t1 u \<and>
         (\<forall>c\<in>set w2. isspace c) \<and> es_entero t2 v \<and>
         (w2 = [] \<longrightarrow> \<not> isdigit (hd t2)) \<and> (r \<noteq> [] \<longrightarrow> \<not> isdigit (hd r))))"
proof (rule conjI)
  show "leer_lineas ls (as, m) =
     (as @ List.map_filter arista_de_linea ls, max_ids (List.map_filter arista_de_linea ls) m)"
    by (rule leer_lineas_map_filter)
next
  have a: "arista_de_linea l = Some (u, v) \<longleftrightarrow>
      l \<noteq> [] \<and> hd l \<noteq> CHR ''#'' \<and> (\<exists>r1 r. extraer_int l = Some (u, r1) \<and> extraer_int r1 = Some (v, r))"
    by (auto simp: arista_de_linea_def split: option.splits)
  have b: "(\<exists>r1 r. extraer_int l = Some (u, r1) \<and> extraer_int r1 = Some (v, r)) \<longleftrightarrow>
      (\<exists>w1 t1 w2 t2 r. l = w1 @ t1 @ w2 @ t2 @ r \<and>
         (\<forall>c\<in>set w1. isspace c) \<and> es_entero t1 u \<and>
         (\<forall>c\<in>set w2. isspace c) \<and> es_entero t2 v \<and>
         (w2 = [] \<longrightarrow> \<not> isdigit (hd t2)) \<and> (r \<noteq> [] \<longrightarrow> \<not> isdigit (hd r)))"
  proof
    assume "\<exists>r1 r. extraer_int l = Some (u, r1) \<and> extraer_int r1 = Some (v, r)"
    then obtain r1 r where e1: "extraer_int l = Some (u, r1)" and e2: "extraer_int r1 = Some (v, r)"
      by blast
    from e1 obtain w1 t1 where 1: "l = w1 @ t1 @ r1" "\<forall>c\<in>set w1. isspace c" "es_entero t1 u"
      "r1 \<noteq> [] \<longrightarrow> \<not> isdigit (hd r1)" unfolding extraer_int_iff by blast
    from e2 obtain w2 t2 where 2: "r1 = w2 @ t2 @ r" "\<forall>c\<in>set w2. isspace c" "es_entero t2 v"
      "r \<noteq> [] \<longrightarrow> \<not> isdigit (hd r)" unfolding extraer_int_iff by blast
    from 2(3) have t2: "t2 \<noteq> []" unfolding es_entero_def by blast
    have h: "w2 = [] \<longrightarrow> \<not> isdigit (hd t2)"
    proof
      assume "w2 = []"
      with 2(1) t2 have "r1 \<noteq> []" "hd r1 = hd t2" by simp_all
      with 1(4) show "\<not> isdigit (hd t2)" by simp
    qed
    have e: "l = w1 @ t1 @ w2 @ t2 @ r" using 1(1) 2(1) by simp
    have "l = w1 @ t1 @ w2 @ t2 @ r \<and>
         (\<forall>c\<in>set w1. isspace c) \<and> es_entero t1 u \<and>
         (\<forall>c\<in>set w2. isspace c) \<and> es_entero t2 v \<and>
         (w2 = [] \<longrightarrow> \<not> isdigit (hd t2)) \<and> (r \<noteq> [] \<longrightarrow> \<not> isdigit (hd r))"
      using e 1(2,3) 2(2,3,4) h by (intro conjI)
    then show "\<exists>w1 t1 w2 t2 r. l = w1 @ t1 @ w2 @ t2 @ r \<and>
         (\<forall>c\<in>set w1. isspace c) \<and> es_entero t1 u \<and>
         (\<forall>c\<in>set w2. isspace c) \<and> es_entero t2 v \<and>
         (w2 = [] \<longrightarrow> \<not> isdigit (hd t2)) \<and> (r \<noteq> [] \<longrightarrow> \<not> isdigit (hd r))"
      by (intro exI)
  next
    assume "\<exists>w1 t1 w2 t2 r. l = w1 @ t1 @ w2 @ t2 @ r \<and>
         (\<forall>c\<in>set w1. isspace c) \<and> es_entero t1 u \<and>
         (\<forall>c\<in>set w2. isspace c) \<and> es_entero t2 v \<and>
         (w2 = [] \<longrightarrow> \<not> isdigit (hd t2)) \<and> (r \<noteq> [] \<longrightarrow> \<not> isdigit (hd r))"
    then obtain w1 t1 w2 t2 r where l: "l = w1 @ t1 @ w2 @ t2 @ r"
      and 1: "\<forall>c\<in>set w1. isspace c" "es_entero t1 u"
      and 2: "\<forall>c\<in>set w2. isspace c" "es_entero t2 v"
      and h: "w2 = [] \<longrightarrow> \<not> isdigit (hd t2)" and r: "r \<noteq> [] \<longrightarrow> \<not> isdigit (hd r)" by blast
    from 2(2) have t2: "t2 \<noteq> []" unfolding es_entero_def by blast
    define r1 where "r1 = w2 @ t2 @ r"
    have nd: "r1 \<noteq> [] \<longrightarrow> \<not> isdigit (hd r1)"
    proof (cases w2)
      case Nil
      with h t2 show ?thesis by (simp add: r1_def)
    next
      case (Cons c w)
      with 2(1) have "isspace c" by simp
      with Cons show ?thesis using digito_no_espacio [of c] by (auto simp: r1_def)
    qed
    have "l = w1 @ t1 @ r1 \<and> (\<forall>c\<in>set w1. isspace c) \<and> es_entero t1 u \<and>
        (r1 \<noteq> [] \<longrightarrow> \<not> isdigit (hd r1))"
      using l 1 nd by (simp add: r1_def)
    then have "\<exists>w t. l = w @ t @ r1 \<and> (\<forall>c\<in>set w. isspace c) \<and> es_entero t u \<and>
        (r1 \<noteq> [] \<longrightarrow> \<not> isdigit (hd r1))" by (intro exI)
    then have e1: "extraer_int l = Some (u, r1)" by (rule extraer_int_iff [THEN iffD2])
    have "r1 = w2 @ t2 @ r \<and> (\<forall>c\<in>set w2. isspace c) \<and> es_entero t2 v \<and>
        (r \<noteq> [] \<longrightarrow> \<not> isdigit (hd r))"
      using 2 r by (simp add: r1_def)
    then have "\<exists>w t. r1 = w @ t @ r \<and> (\<forall>c\<in>set w. isspace c) \<and> es_entero t v \<and>
        (r \<noteq> [] \<longrightarrow> \<not> isdigit (hd r))" by (intro exI)
    then have e2: "extraer_int r1 = Some (v, r)" by (rule extraer_int_iff [THEN iffD2])
    from e1 e2 show "\<exists>r1 r. extraer_int l = Some (u, r1) \<and> extraer_int r1 = Some (v, r)" by blast
  qed
  show "arista_de_linea l = Some (u, v) \<longleftrightarrow>
      l \<noteq> [] \<and> hd l \<noteq> CHR ''#'' \<and>
      (\<exists>w1 t1 w2 t2 r. l = w1 @ t1 @ w2 @ t2 @ r \<and>
         (\<forall>c\<in>set w1. isspace c) \<and> es_entero t1 u \<and>
         (\<forall>c\<in>set w2. isspace c) \<and> es_entero t2 v \<and>
         (w2 = [] \<longrightarrow> \<not> isdigit (hd t2)) \<and> (r \<noteq> [] \<longrightarrow> \<not> isdigit (hd r)))"
    unfolding a b ..
qed

theorem linea_aporta_arista_witness:
  "leer_lineas [''1 2 3'', ''x 1'', ''4 5''] ([], 0) = ([(1, 2), (4, 5)], 5) \<and>
   arista_de_linea ''1 2 3'' = Some (1, 2) \<and>
   (\<exists>w1 t1 w2 t2 r. ''1 2 3'' = w1 @ t1 @ w2 @ t2 @ r \<and>
      (\<forall>c\<in>set w1. isspace c) \<and> es_entero t1 1 \<and>
      (\<forall>c\<in>set w2. isspace c) \<and> es_entero t2 2 \<and>
      (w2 = [] \<longrightarrow> \<not> isdigit (hd t2)) \<and> (r \<noteq> [] \<longrightarrow> \<not> isdigit (hd r)))"
proof -
  have e: "arista_de_linea ''1 2 3'' = Some (1, 2)" by code_simp
  have l: "leer_lineas [''1 2 3'', ''x 1'', ''4 5''] ([], 0) = ([(1, 2), (4, 5)], 5)" by code_simp
  note t = linea_aporta_arista [of "[]" "[]" 0 "''1 2 3''" 1 2]
  from t [THEN conjunct2, THEN iffD1, OF e]
  have "\<exists>w1 t1 w2 t2 r. ''1 2 3'' = w1 @ t1 @ w2 @ t2 @ r \<and>
      (\<forall>c\<in>set w1. isspace c) \<and> es_entero t1 1 \<and>
      (\<forall>c\<in>set w2. isspace c) \<and> es_entero t2 2 \<and>
      (w2 = [] \<longrightarrow> \<not> isdigit (hd t2)) \<and> (r \<noteq> [] \<longrightarrow> \<not> isdigit (hd r))"
    by (rule conjunct2 [THEN conjunct2])
  with l e show ?thesis by (intro conjI)
qed

text \<open>The line \<open>1 2 3\<close> holds three integers and contributes the edge \<open>(1, 2)\<close>.\<close>

theorem linea_con_tres_enteros: "leer_lineas [''1 2 3''] ([], 0) = ([(1, 2)], 2)"
  by code_simp

section \<open>Graphs loaded into a new object\<close>

text \<open>When a loop of \<open>construirCSR\<close> returns, every index it used was inside its vector.\<close>

lemma contar_grados_Some:
  "contar_grados as (rp, ge) = Some (rp', ge') \<Longrightarrow>
   \<forall>e\<in>set as. 0 \<le> fst e + 1 \<and> fst e + 1 < int (length rp) \<and> 0 \<le> snd e \<and> snd e < int (length ge)"
proof (induction as arbitrary: rp ge)
  case Nil
  then show ?case by simp
next
  case (Cons e as)
  obtain u v where e: "e = (u, v)" by (cases e)
  from Cons.prems e obtain a rp1 b ge1 where
    s: "leer rp (u + 1) = Some a" "escribir rp (u + 1) (a + 1) = Some rp1"
       "leer ge v = Some b" "escribir ge v (b + 1) = Some ge1"
       "contar_grados as (rp1, ge1) = Some (rp', ge')"
    by (auto simp: bind_eq_Some_conv)
  from s(1,3) have r: "0 \<le> u + 1" "u + 1 < int (length rp)" "0 \<le> v" "v < int (length ge)"
    by (auto simp: leer_def split: if_splits)
  from s(2,4) have l: "length rp1 = length rp" "length ge1 = length ge"
    by (auto simp: escribir_def split: if_splits)
  from Cons.IH [OF s(5)] l r e show ?case by simp
qed

lemma llenar_Some:
  "llenar as (cp, ci) = Some (cp', ci') \<Longrightarrow>
   length ci' = length ci \<and> (\<forall>e\<in>set as. 0 \<le> fst e \<and> fst e < int (length cp))"
proof (induction as arbitrary: cp ci)
  case Nil
  then show ?case by simp
next
  case (Cons e as)
  obtain u v where e: "e = (u, v)" by (cases e)
  from Cons.prems e obtain pos cp1 ci1 where
    s: "leer cp u = Some pos" "escribir cp u (pos + 1) = Some cp1"
       "escribir ci pos v = Some ci1" "llenar as (cp1, ci1) = Some (cp', ci')"
    by (auto simp: bind_eq_Some_conv)
  from s(1) have r: "0 \<le> u" "u < int (length cp)" by (auto simp: leer_def split: if_splits)
  from s(2,3) have l: "length cp1 = length cp" "length ci1 = length ci"
    by (auto simp: escribir_def split: if_splits)
  from Cons.IH [OF s(4)] l r e show ?case by simp
qed

lemma ordenar_filas_Some:
  "ordenar_filas i n rp ci = Some ci' \<Longrightarrow>
   length ci' = length ci \<and>
   (\<forall>j. i \<le> j \<and> j < n \<longrightarrow> (\<exists>b. leer rp (j + 1) = Some b \<and> b \<le> int (length ci)))"
proof (induction i n rp ci rule: ordenar_filas.induct)
  case (1 i n rp ci)
  show ?case
  proof (cases "i < n")
    case False
    with "1.prems" show ?thesis by (subst (asm) ordenar_filas.simps) auto
  next
    case True
    from "1.prems" True obtain a b ci1 where
      s: "leer rp i = Some a" "leer rp (i + 1) = Some b" "ordenar_rango ci a b = Some ci1"
         "ordenar_filas (i + 1) n rp ci1 = Some ci'"
      by (subst (asm) ordenar_filas.simps) (auto simp: bind_eq_Some_conv)
    from s(3) have l: "length ci1 = length ci" and b: "b \<le> int (length ci)"
      by (auto simp: ordenar_rango_def split: if_splits)
    from "1.IH" [OF True s(1,2,3,4)] have
      ih: "length ci' = length ci1"
          "\<forall>j. i + 1 \<le> j \<and> j < n \<longrightarrow> (\<exists>b. leer rp (j + 1) = Some b \<and> b \<le> int (length ci1))"
      by simp_all
    have "\<forall>j. i \<le> j \<and> j < n \<longrightarrow> (\<exists>b. leer rp (j + 1) = Some b \<and> b \<le> int (length ci))"
    proof (intro allI impI)
      fix j assume j: "i \<le> j \<and> j < n"
      show "\<exists>b. leer rp (j + 1) = Some b \<and> b \<le> int (length ci)"
      proof (cases "j = i")
        case True with s(2) b show ?thesis by simp
      next
        case False
        with j have "i + 1 \<le> j \<and> j < n" by simp
        with ih(2) l show ?thesis by simp
      qed
    qed
    with ih(1) l show ?thesis by simp
  qed
qed


text \<open>So a construction on a new object returns only for an edge list with ids in
  \<open>[0, maxNodo]\<close> and fewer than \<open>2^31\<close> edges.\<close>

lemma size_a_int_cota: "size_a_int k \<le> INT_MAX"
proof -
  have "(int k + 2147483648) mod 4294967296 < 4294967296" by simp
  then show ?thesis by (simp add: size_a_int_def INT_MAX_def)
qed

lemma construirCSR_nuevo_Some:
  assumes "construirCSR as m grafo_nuevo = Some g"
  shows "(\<forall>e\<in>set as. 0 \<le> fst e \<and> fst e \<le> m \<and> 0 \<le> snd e \<and> snd e \<le> m) \<and>
    - 1 \<le> m \<and> m + 2 \<le> INT_MAX \<and> int (length as) \<le> INT_MAX"
proof -
  from assms obtain nn nn1 rp0 ge0 rp1 ge1 rp2 ci0 cp ci1 ci2 where
    s: "suma_int m 1 = Some nn" "suma_int nn 1 = Some nn1"
       "resize [] nn1 (0::int) = Some rp0" "resize [] nn (0::int) = Some ge0"
       "contar_grados as (rp0, ge0) = Some (rp1, ge1)" "acumular 1 nn rp1 = Some rp2"
       "resize [] (size_a_int (length as)) (0::int) = Some ci0"
       "llenar as (butlast rp2, ci0) = Some (cp, ci1)"
       "ordenar_filas 0 nn rp2 ci1 = Some ci2"
    unfolding construirCSR_def grafo_nuevo_def
    by (auto simp: bind_eq_Some_conv Let_def split: if_splits)
  from s(1,2) have nn: "nn = m + 1" "nn1 = m + 2" and m1: "m + 2 \<le> INT_MAX"
    by (auto simp: suma_int_def split: if_splits)
  from s(4) nn have m0: "- 1 \<le> m" by (auto simp: resize_def split: if_splits)
  define n where "n = nat (m + 1)"
  have n: "int n = m + 1" using m0 by (simp add: n_def)
  have nn1n: "nat (m + 2) = Suc n" "nat (m + 1) = n" using m0 by (simp_all add: n_def)
  from s(3,4) nn have r0: "rp0 = replicate (Suc n) 0" "ge0 = replicate n 0"
    by (auto simp: resize_def nn1n simp del: replicate_Suc split: if_splits)
  from s(7) have c0: "length ci0 = nat (size_a_int (length as))" "0 \<le> size_a_int (length as)"
    by (auto simp: resize_def split: if_splits)
  from contar_grados_Some [OF s(5)] r0 n
  have i1: "\<forall>e\<in>set as. - 1 \<le> fst e \<and> fst e \<le> m \<and> 0 \<le> snd e \<and> snd e \<le> m" by auto
  from llenar_Some [OF s(8)] have i2: "\<forall>e\<in>set as. 0 \<le> fst e" and l1: "length ci1 = length ci0"
    by auto
  from i1 i2 have ids: "\<forall>e\<in>set as. 0 \<le> fst e \<and> fst e \<le> m \<and> 0 \<le> snd e \<and> snd e \<le> m"
    by blast
  have "int (length as) \<le> INT_MAX"
  proof (cases "as = []")
    case True
    then show ?thesis by (simp add: INT_MAX_def)
  next
    case False
    then obtain e where "e \<in> set as" by (cases as) auto
    with ids have "0 \<le> m" by force
    then have n1: "0 \<le> int n - 1" "int n - 1 < nn" "int n - 1 + 1 = int n" using n nn by simp_all
    have rp1: "rp1 = map (\<lambda>j. cuenta_origen as (int j - 1)) [0..<Suc n]"
    proof -
      have "\<forall>(u, v)\<in>set as. 0 \<le> u \<and> u + 1 < int (length (replicate (Suc n) (0::int))) \<and>
          0 \<le> v \<and> v < int (length (replicate n (0::int)))"
        using ids n by auto
      from contar_grados_ok [OF this]
      have "contar_grados as (replicate (Suc n) 0, replicate n 0) =
          Some (map (\<lambda>j. cuenta_origen as (int j - 1)) [0..<Suc n],
                map (\<lambda>j. cuenta_destino as (int j)) [0..<n])"
        by (simp del: upt_Suc replicate_Suc cong: map_cong)
      with s(5) r0 show ?thesis by simp
    qed
    have rp2: "rp2 = map (\<lambda>j. sum_list (take (Suc j) rp1)) [0..<Suc n]"
    proof -
      have l: "length rp1 = Suc n" by (simp add: rp1)
      have z: "\<forall>j<1. rp1 ! j = sum_list (take (Suc j) rp1)"
        by (simp add: rp1 take_Suc_conv_app_nth del: upt_Suc)
      from acumular_ok [OF l l, of 1] z s(6) nn n show ?thesis by simp
    qed
    have "take (Suc n) rp1 = rp1" by (simp add: rp1)
    then have "rp2 ! n = sum_list rp1" unfolding rp2 by (simp del: upt_Suc)
    also have "\<dots> = inicio_fila as (int n)"
      unfolding rp1 using suma_cuentas [of as n] ids by simp
    also have "\<dots> = int (length as)" using ids n by (intro inicio_fila_total) auto
    finally have last: "rp2 ! n = int (length as)" .
    from ordenar_filas_Some [OF s(9)] n1 obtain b where
      b: "leer rp2 (int n - 1 + 1) = Some b" "b \<le> int (length ci1)" by blast
    from b(1) n1(3) have "b = rp2 ! n" by (auto simp: leer_def split: if_splits)
    with last b(2) l1 c0 have "int (length as) \<le> size_a_int (length as)" by simp
    with size_a_int_cota [of "length as"] show ?thesis by simp
  qed
  with ids m0 m1 show ?thesis by simp
qed

text \<open>The edge list that the reading loop takes from the lines of a file.\<close>

definition aristas_de_archivo :: "string list \<Rightarrow> (int \<times> int) list" where
  "aristas_de_archivo lineas = fst (leer_lineas lineas ([], 0))"

text \<open>A graph that \<open>cargarDatos\<close> returns for a new object is well-formed, and its row of
  a node is the ascending list of the destinations that the file gives for that node.\<close>

lemma cargado:
  assumes "cargarDatos (Some lineas) grafo_nuevo = Some (ok, g)"
  shows "ok \<and> csr_ok g \<and> filas_ordenadas g \<and>
    (\<forall>u. vecinos_de g u = sort (destinos (aristas_de_archivo lineas) u))"
proof -
  obtain as m where lm: "leer_lineas lineas ([], 0) = (as, m)"
    by (cases "leer_lineas lineas ([], 0)")
  then have a: "aristas_de_archivo lineas = as" by (simp add: aristas_de_archivo_def)
  from assms lm have ok: "ok" and c: "construirCSR as m grafo_nuevo = Some g"
    by (auto simp: cargarDatos_def bind_eq_Some_conv)
  from construirCSR_nuevo_Some [OF c] have
    h: "\<forall>e\<in>set as. 0 \<le> fst e \<and> fst e \<le> m \<and> 0 \<le> snd e \<and> snd e \<le> m"
       "- 1 \<le> m" "m + 2 \<le> INT_MAX" "int (length as) \<le> INT_MAX" by simp_all
  from construirCSR_nuevo_invariantes [OF h] c have
    g: "numNodos g = m + 1" "csr_ok g" "filas_ordenadas g"
       "\<And>u. nodo_valido g u \<Longrightarrow> getVecinos g u = Some (sort (destinos as u))"
    by auto
  have "\<forall>u. vecinos_de g u = sort (destinos as u)"
  proof
    fix u
    show "vecinos_de g u = sort (destinos as u)"
    proof (cases "nodo_valido g u")
      case True
      from g(4) [OF True] show ?thesis by (simp add: vecinos_de_def)
    next
      case False
      with h(1) g(1) have "filter (\<lambda>e. fst e = u) as = []"
        by (force simp: filter_empty_conv nodo_valido_def)
      with False show ?thesis by (simp add: vecinos_de_invalido destinos_def)
    qed
  qed
  with ok g(2,3) a show ?thesis by simp
qed

section \<open>Traversals of a loaded graph\<close>

text \<open>
  Walks and distances in the edge list itself, without the object: \<open>caminos_lista as s k\<close>
  lists the end points of the walks of \<open>k\<close> edges of \<open>as\<close> from \<open>s\<close>, and
  \<open>distancia_lista as s v d\<close> says that the shortest walk from \<open>s\<close> to \<open>v\<close> has \<open>d\<close>
  edges.
\<close>

fun caminos_lista :: "(int \<times> int) list \<Rightarrow> int \<Rightarrow> nat \<Rightarrow> int list" where
  "caminos_lista as s 0 = [s]"
| "caminos_lista as s (Suc k) = concat (map (destinos as) (caminos_lista as s k))"

definition alcanza_lista :: "(int \<times> int) list \<Rightarrow> int \<Rightarrow> nat \<Rightarrow> int \<Rightarrow> bool" where
  "alcanza_lista as s k v \<longleftrightarrow> v \<in> set (caminos_lista as s k)"

definition distancia_lista :: "(int \<times> int) list \<Rightarrow> int \<Rightarrow> int \<Rightarrow> nat \<Rightarrow> bool" where
  "distancia_lista as s v d \<longleftrightarrow> alcanza_lista as s d v \<and> (\<forall>k<d. \<not> alcanza_lista as s k v)"

lemma caminos_cargado:
  assumes "\<forall>u. vecinos_de g u = sort (destinos as u)"
  shows "set (caminos g s k) = set (caminos_lista as s k)"
  using assms by (induction k) simp_all

lemma alcanza_cargado:
  assumes "\<forall>u. vecinos_de g u = sort (destinos as u)"
  shows "alcanza_en g s k v \<longleftrightarrow> alcanza_lista as s k v"
  using caminos_cargado [OF assms] by (simp add: alcanza_en_def alcanza_lista_def)

lemma distancia_cargado:
  assumes "\<forall>u. vecinos_de g u = sort (destinos as u)"
  shows "distancia g s v d \<longleftrightarrow> distancia_lista as s v d"
  using alcanza_cargado [OF assms] by (simp add: distancia_def distancia_lista_def)

text \<open>
  Claim C1. For every graph that \<open>cargarDatos\<close> returns for a new object, every start node
  \<open>s\<close> in \<open>[0, numNodos)\<close> and every \<open>D \<ge> 0\<close>, \<open>BFS g s D\<close> returns a sequence of
  \<open>(node, level)\<close> pairs in which no node occurs twice, the levels do not decrease, and
  whose pairs are exactly the \<open>(v, k)\<close> with \<open>0 \<le> k \<le> D\<close> and \<open>k\<close> the number of edges
  of a shortest walk from \<open>s\<close> to \<open>v\<close> in the edge list of the file. So every node within
  \<open>D\<close> hops is there once with its true hop count, the nodes at exactly \<open>D\<close> included,
  and no node is there only as a neighbour of a node at distance \<open>D\<close>.
\<close>

theorem BFS_correcto:
  assumes "cargarDatos (Some lineas) grafo_nuevo = Some (ok, g)"
    and "0 \<le> s" and "s < numNodos g" and "0 \<le> D"
  shows "\<exists>res. BFS g s D = Some res \<and> distinct (map fst res) \<and> sorted (map snd res) \<and>
    set res = {(v, k). 0 \<le> k \<and> k \<le> D \<and> distancia_lista (aristas_de_archivo lineas) s v (nat k)}"
proof -
  from cargado [OF assms(1)] have ok: "csr_ok g"
    and v: "\<forall>u. vecinos_de g u = sort (destinos (aristas_de_archivo lineas) u)" by simp_all
  from bfs_bien_formado [OF ok assms(2,3,4)] show ?thesis
    unfolding distancia_cargado [OF v] .
qed

text \<open>The graph of the file \<open>0 1, 2 0\<close>: from node 1 nothing else is reachable, and from
  node 2 with depth 1 node 1 (two hops away) is left out.\<close>

definition grafo_dos_aristas :: GrafoDisperso where
  "grafo_dos_aristas = \<lparr>row_ptr = [0, 1, 1, 2], column_indices = [1, 0], valores = [1, 1],
     numNodos = 3, numAristas = 2, gradoEntrada = [1, 1, 0]\<rparr>"

theorem BFS_correcto_witness:
  "cargarDatos (Some [''0 1'', ''2 0'']) grafo_nuevo = Some (True, grafo_dos_aristas) \<and>
   (0::int) \<le> 1 \<and> 1 < numNodos grafo_dos_aristas \<and> (0::int) \<le> 5 \<and>
   BFS grafo_dos_aristas 1 5 = Some [(1, 0)] \<and>
   set [(1, 0)] = {(v, k). 0 \<le> k \<and> k \<le> 5 \<and>
      distancia_lista (aristas_de_archivo [''0 1'', ''2 0'']) 1 v (nat k)} \<and>
   BFS grafo_dos_aristas 2 1 = Some [(2, 0), (0, 1)] \<and>
   set [(2, 0), (0, 1)] = {(v, k). 0 \<le> k \<and> k \<le> 1 \<and>
      distancia_lista (aristas_de_archivo [''0 1'', ''2 0'']) 2 v (nat k)}"
proof -
  have h1: "cargarDatos (Some [''0 1'', ''2 0'']) grafo_nuevo = Some (True, grafo_dos_aristas)"
    by code_simp
  have n: "numNodos grafo_dos_aristas = 3" by (simp add: grafo_dos_aristas_def)
  have e1: "BFS grafo_dos_aristas 1 5 = Some [(1, 0)]" by code_simp
  have e2: "BFS grafo_dos_aristas 2 1 = Some [(2, 0), (0, 1)]" by code_simp
  have a: "set [(1, 0)] = {(v, k). 0 \<le> k \<and> k \<le> 5 \<and>
      distancia_lista (aristas_de_archivo [''0 1'', ''2 0'']) 1 v (nat k)}"
    using BFS_correcto [OF h1, of 1 5] e1 n by simp
  have b: "set [(2, 0), (0, 1)] = {(v, k). 0 \<le> k \<and> k \<le> 1 \<and>
      distancia_lista (aristas_de_archivo [''0 1'', ''2 0'']) 2 v (nat k)}"
    using BFS_correcto [OF h1, of 2 1] e2 n by simp
  from h1 n e1 e2 a b show ?thesis by (intro conjI) simp_all
qed

text \<open>
  Claim C5. For every graph that \<open>cargarDatos\<close> returns for a new object and every start
  node \<open>s\<close> in \<open>[0, numNodos)\<close>, \<open>DFS g s\<close> returns the order in which the recursive
  preorder traversal from \<open>s\<close> visits the nodes when the neighbours of a node are the
  destinations of its edges in the file, sorted ascending; no node occurs twice in it, and
  its nodes are exactly the nodes reachable from \<open>s\<close> by a walk of any length in the edge
  list of the file. There is no depth bound.
\<close>

theorem DFS_correcto:
  assumes "cargarDatos (Some lineas) grafo_nuevo = Some (ok, g)"
    and "0 \<le> s" and "s < numNodos g"
  shows "\<exists>res. DFS g s = Some res \<and>
    preorden (\<lambda>u. sort (destinos (aristas_de_archivo lineas) u)) [s] [] res \<and>
    distinct res \<and> set res = {v. \<exists>k. alcanza_lista (aristas_de_archivo lineas) s k v}"
proof -
  from cargado [OF assms(1)] have ok: "csr_ok g" and fo: "filas_ordenadas g"
    and v: "\<forall>u. vecinos_de g u = sort (destinos (aristas_de_archivo lineas) u)" by simp_all
  from v have f: "(\<lambda>u. sort (vecinos_de g u)) = (\<lambda>u. sort (destinos (aristas_de_archivo lineas) u))"
    by (simp add: sorted_sort_id)
  from dfs_bien_formado [OF ok fo assms(2,3)] show ?thesis
    unfolding alcanza_cargado [OF v] f .
qed

text \<open>The graph of the file \<open>0 2, 0 1, 1 3\<close>, where the file lists the neighbours of
  node 0 in descending order: the traversal takes 1 and its subtree before 2.\<close>

definition grafo_tres_aristas :: GrafoDisperso where
  "grafo_tres_aristas = \<lparr>row_ptr = [0, 2, 3, 3, 3], column_indices = [1, 2, 3],
     valores = [1, 1, 1], numNodos = 4, numAristas = 3, gradoEntrada = [0, 1, 1, 1]\<rparr>"

theorem DFS_correcto_witness:
  "cargarDatos (Some [''0 2'', ''0 1'', ''1 3'']) grafo_nuevo = Some (True, grafo_tres_aristas) \<and>
   (0::int) \<le> 0 \<and> 0 < numNodos grafo_tres_aristas \<and>
   DFS grafo_tres_aristas 0 = Some [0, 1, 3, 2] \<and>
   preorden (\<lambda>u. sort (destinos (aristas_de_archivo [''0 2'', ''0 1'', ''1 3'']) u)) [0] []
     [0, 1, 3, 2] \<and>
   set [0, 1, 3, 2] = {v. \<exists>k. alcanza_lista (aristas_de_archivo [''0 2'', ''0 1'', ''1 3'']) 0 k v}"
proof -
  have h1: "cargarDatos (Some [''0 2'', ''0 1'', ''1 3'']) grafo_nuevo
      = Some (True, grafo_tres_aristas)" by code_simp
  have n: "numNodos grafo_tres_aristas = 4" by (simp add: grafo_tres_aristas_def)
  have e: "DFS grafo_tres_aristas 0 = Some [0, 1, 3, 2]" by code_simp
  from DFS_correcto [OF h1, of 0] e n
  have "preorden (\<lambda>u. sort (destinos (aristas_de_archivo [''0 2'', ''0 1'', ''1 3'']) u)) [0] []
     [0, 1, 3, 2] \<and>
   set [0, 1, 3, 2] = {v. \<exists>k. alcanza_lista (aristas_de_archivo [''0 2'', ''0 1'', ''1 3'']) 0 k v}"
    by simp
  with h1 n e show ?thesis by simp
qed

section \<open>The result of a load\<close>








end
